theory Spec2Isabelle
  imports Complex_Main "HOL-Library.Monad_Syntax"
begin

section \<open>Ant colony simulation (scetch.js)\<close>

text \<open>
  A shallow embedding of the simulation engine of \<^verbatim>\<open>src/scetch.js\<close>: maze generation,
  placement of colony and food, the two pheromone grids, and the per-tick update of the
  ants. Drawing code is left out.

  JavaScript numbers are modelled as exact reals (\<^typ>\<open>real\<close>). The rounding of IEEE
  doubles is modelled where a statement depends on it, which is the decay of the pheromone
  under evaporation. Grid coordinates, which the program obtains with \<^verbatim>\<open>floor\<close>, are
  integers (\<^typ>\<open>int\<close>). A two-dimensional array \<^verbatim>\<open>grid[x][y]\<close> is a list of columns.
\<close>

subsection \<open>Library functions of p5.js used by the program\<close>

type_synonym vec = "real \<times> real"

definition constrain :: "'a::linorder \<Rightarrow> 'a \<Rightarrow> 'a \<Rightarrow> 'a" where
  \<comment> \<open>\<^verbatim>\<open>constrain(n, low, high) = Math.max(Math.min(n, high), low)\<close>\<close>
  "constrain n low high = max (min n high) low"

definition map_p5 :: "real \<Rightarrow> real \<Rightarrow> real \<Rightarrow> real \<Rightarrow> real \<Rightarrow> real" where
  \<comment> \<open>\<^verbatim>\<open>map(n, start1, stop1, start2, stop2)\<close>, without the optional clamping.\<close>
  "map_p5 n start1 stop1 start2 stop2 =
     (n - start1) / (stop1 - start1) * (stop2 - start2) + start2"

definition dist_p5 :: "real \<Rightarrow> real \<Rightarrow> real \<Rightarrow> real \<Rightarrow> real" where
  "dist_p5 x1 y1 x2 y2 = sqrt ((x2 - x1)\<^sup>2 + (y2 - y1)\<^sup>2)"

definition atan2 :: "real \<Rightarrow> real \<Rightarrow> real" where
  \<comment> \<open>\<^verbatim>\<open>Math.atan2(y, x)\<close>: the angle of the point \<open>(x, y)\<close>, in \<open>(-\<pi>, \<pi>]\<close>.\<close>
  "atan2 y x =
     (if 0 < x then arctan (y / x)
      else if x < 0 then (if 0 \<le> y then arctan (y / x) + pi else arctan (y / x) - pi)
      else if 0 < y then pi / 2
      else if y < 0 then - pi / 2
      else 0)"

definition fromAngle :: "real \<Rightarrow> vec" where
  \<comment> \<open>\<^verbatim>\<open>p5.Vector.fromAngle(angle)\<close>: the unit vector of that angle.\<close>
  "fromAngle a = (cos a, sin a)"

definition heading :: "vec \<Rightarrow> real" where
  "heading v = atan2 (snd v) (fst v)"

definition mult :: "vec \<Rightarrow> real \<Rightarrow> vec" where
  "mult v k = (fst v * k, snd v * k)"

definition add_vec :: "vec \<Rightarrow> vec \<Rightarrow> vec" where
  "add_vec a b = (fst a + fst b, snd a + snd b)"

subsection \<open>Grids\<close>

text \<open>The maze stores \<^verbatim>\<open>0\<close> for a path cell and \<^verbatim>\<open>1\<close> for a wall.\<close>

datatype cell = Path | Wall

type_synonym 'a grid = "'a list list"
type_synonym gridpos = "int \<times> int"

definition createGrid :: "int \<Rightarrow> int \<Rightarrow> 'a \<Rightarrow> 'a grid" where
  "createGrid cols rows defaultValue = replicate (nat cols) (replicate (nat rows) defaultValue)"

definition isValidGridPos :: "int \<Rightarrow> int \<Rightarrow> int \<Rightarrow> int \<Rightarrow> bool" where
  \<comment> \<open>The first two arguments are \<^verbatim>\<open>GRID_COLS\<close> and \<^verbatim>\<open>GRID_ROWS\<close> of the configuration.\<close>
  "isValidGridPos cols rows x y \<longleftrightarrow> x \<ge> 0 \<and> x < cols \<and> y \<ge> 0 \<and> y < rows"

definition cell_at :: "'a grid \<Rightarrow> int \<Rightarrow> int \<Rightarrow> 'a" where
  \<comment> \<open>\<^verbatim>\<open>grid[x][y]\<close> in the per-tick code, where every access is guarded by a bounds test.\<close>
  "cell_at g x y = g ! nat x ! nat y"

definition cell_set :: "'a grid \<Rightarrow> int \<Rightarrow> int \<Rightarrow> 'a \<Rightarrow> 'a grid" where
  \<comment> \<open>\<^verbatim>\<open>grid[x][y] = v\<close> in the per-tick code.\<close>
  "cell_set g x y v = g[nat x := (g ! nat x)[nat y := v]]"

definition grid_shape :: "int \<Rightarrow> int \<Rightarrow> 'a grid \<Rightarrow> bool" where
  \<comment> \<open>The grid has \<open>cols\<close> columns of \<open>rows\<close> cells each, as \<open>createGrid\<close> builds it.\<close>
  "grid_shape cols rows g \<longleftrightarrow>
     0 \<le> cols \<and> 0 \<le> rows \<and> length g = nat cols \<and> list_all (\<lambda>c. length c = nat rows) g"

subsection \<open>Simulation state\<close>

text \<open>
  The record \<open>simulationConfig\<close> is the global object of that name. Its last two fields
  are not in the source: \<open>rand\<close> is the sequence of values \<^verbatim>\<open>Math.random()\<close> returns,
  each in \<open>[0, 1)\<close>, and \<open>rand_used\<close> counts how many of them have been drawn.
\<close>

datatype ant_state = Searching | Returning

record ant =
  pos :: vec
  vel :: vec
  state :: ant_state
  gridPos :: gridpos
  history :: "gridpos list"
  charge :: real

record simulationConfig =
  NUM_ANTS :: real
  ANT_SPEED :: real
  EVAPORATION_RATE :: real
  DEPOSITION_RATE_EXPLORE :: real
  DEPOSITION_RATE_RETURN :: real
  PHEROMONE_MAX :: real
  PHEROMONE_DURATION :: real
  SENSE_RADIUS :: real
  GOAL_SENSE_RADIUS :: real
  SENSE_ANGLE :: real
  TURN_ANGLE :: real
  FOLLOW_STRENGTH_WEIGHT :: real
  RANDOM_TURN_CHANCE :: real
  FOOD_DETECTION_RADIUS :: real
  COLONY_DETECTION_RADIUS :: real
  ANT_HISTORY_LENGTH :: int
  GRID_COLS :: int
  GRID_ROWS :: int
  CELL_SIZE :: real
  maze :: "cell grid"
  explorePheromones :: "real grid"
  returnPheromones :: "real grid"
  ants :: "ant list"
  colonyPos :: gridpos
  foodPos :: gridpos
  foodFoundCount :: int
  lastAntSpawnTime :: real
  SPAWN_INTERVAL :: real
  rand :: "nat \<Rightarrow> real"
  rand_used :: nat

text \<open>
  \<^verbatim>\<open>random(lo, hi)\<close> of p5.js is \<open>Math.random() * (hi - lo) + lo\<close>, and
  \<^verbatim>\<open>p5.Vector.random2D()\<close> is the unit vector of the angle \<open>Math.random() * TWO_PI\<close>.
\<close>

definition random01 :: "simulationConfig \<Rightarrow> real \<times> simulationConfig" where
  "random01 s = (rand s (rand_used s), s\<lparr>rand_used := Suc (rand_used s)\<rparr>)"

definition random_range :: "simulationConfig \<Rightarrow> real \<Rightarrow> real \<Rightarrow> real \<times> simulationConfig" where
  "random_range s lo hi = (case random01 s of (u, s') \<Rightarrow> (u * (hi - lo) + lo, s'))"

definition random2D :: "simulationConfig \<Rightarrow> vec \<times> simulationConfig" where
  "random2D s = (case random01 s of (u, s') \<Rightarrow> (fromAngle (u * (2 * pi)), s'))"

subsection \<open>Coordinates\<close>

definition gridToPixel :: "simulationConfig \<Rightarrow> int \<Rightarrow> int \<Rightarrow> vec" where
  "gridToPixel s gridX gridY =
     ((real_of_int gridX + 0.5) * CELL_SIZE s, (real_of_int gridY + 0.5) * CELL_SIZE s)"

text \<open>
  \<^verbatim>\<open>floor(pixelX / CELL_SIZE)\<close>. The quotient is that of the source only for a
  \<open>CELL_SIZE\<close> other than \<open>0\<close>: there JavaScript divides to \<open>Infinity\<close> or \<open>NaN\<close>, while
  the division of the real numbers gives \<open>0\<close>. \<^verbatim>\<open>setup\<close> computes \<open>CELL_SIZE\<close> as
  \<open>floor(canvasWidth / GRID_COLS)\<close>, which is \<open>0\<close> for a canvas narrower than the grid
  has columns; the theorem on the cell of a deposit assumes a positive \<open>CELL_SIZE\<close>.
\<close>

definition pixelToGrid :: "simulationConfig \<Rightarrow> real \<Rightarrow> real \<Rightarrow> gridpos" where
  "pixelToGrid s pixelX pixelY = (\<lfloor>pixelX / CELL_SIZE s\<rfloor>, \<lfloor>pixelY / CELL_SIZE s\<rfloor>)"

subsection \<open>Evaporation\<close>

text \<open>
  The body of the double loop of \<^verbatim>\<open>updatePheromones\<close> at cell \<open>(i, j)\<close>: both grids are
  multiplied by \<open>1 - evapRate\<close>, then a value below \<open>0.01\<close> is set to \<open>0\<close>.
\<close>

definition evaporate_body :: "real \<Rightarrow> int \<Rightarrow> int \<Rightarrow> real grid \<times> real grid \<Rightarrow> real grid \<times> real grid" where
  "evaporate_body evapRate i j er =
     (let explore = fst er; returnPher = snd er;
          explore = cell_set explore i j (cell_at explore i j * (1.0 - evapRate));
          returnPher = cell_set returnPher i j (cell_at returnPher i j * (1.0 - evapRate));
          explore = (if cell_at explore i j < 0.01 then cell_set explore i j 0 else explore);
          returnPher = (if cell_at returnPher i j < 0.01 then cell_set returnPher i j 0 else returnPher)
      in (explore, returnPher))"

definition evaporate_grids :: "int \<Rightarrow> int \<Rightarrow> real \<Rightarrow> real grid \<times> real grid \<Rightarrow> real grid \<times> real grid" where
  \<comment> \<open>\<^verbatim>\<open>for (i = 0; i < cols; i++) for (j = 0; j < rows; j++) ...\<close>\<close>
  "evaporate_grids cols rows evapRate er =
     fold (\<lambda>i. fold (\<lambda>j. evaporate_body evapRate (int i) (int j)) [0..<nat rows]) [0..<nat cols] er"

definition evaporate_cell :: "real \<Rightarrow> real \<Rightarrow> real" where
  \<comment> \<open>What one evaporation does to the value of one cell.\<close>
  "evaporate_cell evapRate v = (if v * (1 - evapRate) < 0.01 then 0 else v * (1 - evapRate))"

definition updatePheromones :: "simulationConfig \<Rightarrow> simulationConfig" where
  "updatePheromones s =
     (case evaporate_grids (GRID_COLS s) (GRID_ROWS s) (EVAPORATION_RATE s)
             (explorePheromones s, returnPheromones s) of
        (explore, returnPher) \<Rightarrow> s\<lparr>explorePheromones := explore, returnPheromones := returnPher\<rparr>)"

subsection \<open>The ant\<close>

definition new_ant :: "simulationConfig \<Rightarrow> int \<Rightarrow> int \<Rightarrow> ant \<times> simulationConfig" where
  \<comment> \<open>The constructor \<^verbatim>\<open>new Ant(gridX, gridY)\<close>.\<close>
  "new_ant s gridX gridY =
     (case random2D s of (v, s') \<Rightarrow>
       (\<lparr>pos = gridToPixel s gridX gridY, vel = mult v (ANT_SPEED s), state = Searching,
         gridPos = (gridX, gridY), history = [], charge = PHEROMONE_DURATION s\<rparr>, s'))"

definition updateGridPos :: "simulationConfig \<Rightarrow> ant \<Rightarrow> ant" where
  "updateGridPos s a =
     (let currentGrid = pixelToGrid s (fst (pos a)) (snd (pos a))
      in a\<lparr>gridPos := (constrain (fst currentGrid) 0 (GRID_COLS s - 1),
                        constrain (snd currentGrid) 0 (GRID_ROWS s - 1))\<rparr>)"

definition addToHistory :: "simulationConfig \<Rightarrow> ant \<Rightarrow> ant" where
  "addToHistory s a =
     (if history a = [] \<or> fst (last (history a)) \<noteq> fst (gridPos a)
         \<or> snd (last (history a)) \<noteq> snd (gridPos a)
      then let h = history a @ [gridPos a]
           in a\<lparr>history := (if int (length h) > ANT_HISTORY_LENGTH s then tl h else h)\<rparr>
      else a)"

definition wasRecentlyVisited :: "ant \<Rightarrow> int \<Rightarrow> int \<Rightarrow> bool" where
  \<comment> \<open>The loop runs over all entries of the history but the last.\<close>
  "wasRecentlyVisited a gridX gridY \<longleftrightarrow>
     list_ex (\<lambda>h. fst h = gridX \<and> snd h = gridY) (butlast (history a))"

definition checkEnvironment :: "simulationConfig \<Rightarrow> ant \<Rightarrow> ant \<times> simulationConfig" where
  "checkEnvironment s a =
     (if state a = Searching then
        (let distToFood = dist_p5 (real_of_int (fst (gridPos a))) (real_of_int (snd (gridPos a)))
                                  (real_of_int (fst (foodPos s))) (real_of_int (snd (foodPos s)))
         in if distToFood \<le> FOOD_DETECTION_RADIUS s
            then (a\<lparr>state := Returning, vel := mult (vel a) (- 1),
                     charge := PHEROMONE_DURATION s\<rparr>, s)
            else (a, s))
      else
        (let distToColony = dist_p5 (real_of_int (fst (gridPos a))) (real_of_int (snd (gridPos a)))
                                    (real_of_int (fst (colonyPos s))) (real_of_int (snd (colonyPos s)))
         in if distToColony \<le> COLONY_DETECTION_RADIUS s
            then (case random2D s of (v, s') \<Rightarrow>
                   (a\<lparr>state := Searching, vel := mult v (ANT_SPEED s),
                      charge := PHEROMONE_DURATION s\<rparr>,
                    s'\<lparr>foodFoundCount := foodFoundCount s' + 1\<rparr>))
            else (a, s)))"

subsubsection \<open>Sensing\<close>

text \<open>
  The values that the counters of the two \<^verbatim>\<open>for\<close> loops take. The inner loop goes
  from \<open>0.5\<close> in steps of \<open>0.5\<close> while the counter is at most \<open>1.5\<close>. The outer loop
  goes from \<open>-SENSE_ANGLE/2\<close> in steps of \<open>SENSE_ANGLE/4\<close> while the counter is at most
  \<open>SENSE_ANGLE/2\<close>; with a step that is not positive it would not end, and the result
  \<open>None\<close> stands for that.
\<close>

function dist_multipliers :: "real \<Rightarrow> real list" where
  "dist_multipliers distMultiplier =
     (if distMultiplier \<le> 1.5 then distMultiplier # dist_multipliers (distMultiplier + 0.5) else [])"
  by pat_completeness auto
termination
proof (relation "measure (\<lambda>m. nat \<lceil>(2 - m) * 2\<rceil>)")
  show "wf (measure (\<lambda>m. nat \<lceil>(2 - m) * 2\<rceil>))" by simp
next
  fix m :: real
  assume le: "m \<le> 1.5"
  have eq: "(2 - (m + 0.5)) * 2 = (2 - m) * 2 - 1" by simp
  have "0 < (2 - m) * 2" using le by simp
  then have "0 < \<lceil>(2 - m) * 2\<rceil>" by linarith
  moreover have "\<lceil>(2 - (m + 0.5)) * 2\<rceil> = \<lceil>(2 - m) * 2\<rceil> - 1"
    by (simp only: eq ceiling_diff_one)
  ultimately show "(m + 0.5, m) \<in> measure (\<lambda>m. nat \<lceil>(2 - m) * 2\<rceil>)"
    by (simp only: in_measure)
qed

declare dist_multipliers.simps [simp del]

partial_function (option) angle_offsets :: "real \<Rightarrow> real \<Rightarrow> real \<Rightarrow> real list option" where
  "angle_offsets angleOffset limit step =
     (if angleOffset \<le> limit
      then Option.bind (angle_offsets (angleOffset + step) limit step) (\<lambda>rest. Some (angleOffset # rest))
      else Some [])"

text \<open>
  One probe of the sensing loops: the direction \<open>checkAngle\<close>, the factor
  \<open>distMultiplier\<close> of the inner loop, the distance \<open>senseDist\<close> computed from it, and the
  point and cell that are looked at.
\<close>

record probe =
  checkAngle :: real
  distMultiplier :: real
  senseDist :: real
  checkPos :: vec
  checkGrid :: gridpos

text \<open>
  The inner loop for one direction. \<^verbatim>\<open>senseVec.mult(senseDist)\<close> scales \<open>senseVec\<close> in
  place, so the vector is passed on from one round to the next.
\<close>

fun radial_probes :: "simulationConfig \<Rightarrow> ant \<Rightarrow> real \<Rightarrow> vec \<Rightarrow> real list \<Rightarrow> probe list" where
  "radial_probes s a angle senseVec [] = []"
| "radial_probes s a angle senseVec (m # ms) =
     (let dist = CELL_SIZE s * SENSE_RADIUS s * m;
          senseVec = mult senseVec dist;
          p = add_vec (pos a) senseVec
      in \<lparr>checkAngle = angle, distMultiplier = m, senseDist = dist, checkPos = p,
          checkGrid = pixelToGrid s (fst p) (snd p)\<rparr>
         # radial_probes s a angle senseVec ms)"

definition sense_probes :: "simulationConfig \<Rightarrow> ant \<Rightarrow> probe list option" where
  \<comment> \<open>The probes of both loops, in the order the loops visit them.\<close>
  "sense_probes s a =
     (let currentAngle = heading (vel a)
      in map_option
           (\<lambda>offsets. concat (map (\<lambda>angleOffset.
               let angle = currentAngle + angleOffset
               in radial_probes s a angle (fromAngle angle) (dist_multipliers 0.5)) offsets))
           (angle_offsets (- SENSE_ANGLE s / 2) (SENSE_ANGLE s / 2) (SENSE_ANGLE s / 4)))"

text \<open>
  The loops compute the probes without looking at the grids; what they do with each probe
  is \<open>score_probe\<close>, applied to the probes in the order of the loops.
\<close>

definition score_probe :: "ant \<Rightarrow> probe \<Rightarrow> real \<times> real \<times> simulationConfig \<Rightarrow> real \<times> real \<times> simulationConfig" where
  \<comment> \<open>The body of the inner loop after the cell has been computed; the state is
      \<open>(maxPheromone, bestAngle, s)\<close>.\<close>
  "score_probe a p st =
     (case st of (maxPheromone, bestAngle, s) \<Rightarrow>
       (let gx = fst (checkGrid p); gy = snd (checkGrid p);
            targetPheromones = (if state a = Searching then returnPheromones s else explorePheromones s)
        in if isValidGridPos (GRID_COLS s) (GRID_ROWS s) gx gy \<and> cell_at (maze s) gx gy = Path
              \<and> \<not> wasRecentlyVisited a gx gy
           then (let pheromoneLevel = cell_at targetPheromones gx gy;
                     weightedLevel = pheromoneLevel * FOLLOW_STRENGTH_WEIGHT s
                 in case random_range s 0 (PHEROMONE_MAX s * 0.1) of (jitter, s') \<Rightarrow>
                      (let weightedLevel = weightedLevel + jitter
                       in if weightedLevel > maxPheromone then (weightedLevel, checkAngle p, s')
                          else (maxPheromone, bestAngle, s')))
           else (maxPheromone, bestAngle, s)))"

definition targetGridPos :: "simulationConfig \<Rightarrow> ant \<Rightarrow> gridpos" where
  "targetGridPos s a = (if state a = Searching then foodPos s else colonyPos s)"

definition distToTarget :: "simulationConfig \<Rightarrow> ant \<Rightarrow> real" where
  "distToTarget s a =
     dist_p5 (real_of_int (fst (gridPos a))) (real_of_int (snd (gridPos a)))
             (real_of_int (fst (targetGridPos s a))) (real_of_int (snd (targetGridPos s a)))"

definition senseAndDecideAngle :: "simulationConfig \<Rightarrow> ant \<Rightarrow> (real \<times> simulationConfig) option" where
  "senseAndDecideAngle s a =
     (if distToTarget s a \<le> GOAL_SENSE_RADIUS s
      then (let targetPixelPos = gridToPixel s (fst (targetGridPos s a)) (snd (targetGridPos s a));
                directAngle = atan2 (snd targetPixelPos - snd (pos a)) (fst targetPixelPos - fst (pos a))
            in Some (directAngle, s))
      else (let currentAngle = heading (vel a)
            in case sense_probes s a of
                 None \<Rightarrow> None
               | Some probes \<Rightarrow>
                   (case fold (score_probe a) probes (- 1, currentAngle, s) of
                      (maxPheromone, bestAngle, s') \<Rightarrow>
                        if maxPheromone \<le> 0
                        then (case random_range s' (- TURN_ANGLE s * 0.5) (TURN_ANGLE s * 0.5) of
                                (r, s'') \<Rightarrow> Some (currentAngle + r, s''))
                        else Some (bestAngle, s'))))"

subsubsection \<open>Moving\<close>

text \<open>
  \<^verbatim>\<open>while (angleDiff > PI) angleDiff -= TWO_PI\<close> and
  \<^verbatim>\<open>while (angleDiff < -PI) angleDiff += TWO_PI\<close>.
\<close>

function norm_down :: "real \<Rightarrow> real" where
  "norm_down angleDiff = (if angleDiff > pi then norm_down (angleDiff - 2 * pi) else angleDiff)"
  by pat_completeness auto
termination
proof (relation "measure (\<lambda>d. nat \<lceil>(d - pi) / (2 * pi)\<rceil>)")
  show "wf (measure (\<lambda>d. nat \<lceil>(d - pi) / (2 * pi)\<rceil>))" by simp
next
  fix angleDiff :: real
  assume gt: "pi < angleDiff"
  have eq: "(angleDiff - 2 * pi - pi) / (2 * pi) = (angleDiff - pi) / (2 * pi) - 1"
    by (simp add: field_simps)
  have pos: "0 < (angleDiff - pi) / (2 * pi)" using gt by simp
  then have "0 < \<lceil>(angleDiff - pi) / (2 * pi)\<rceil>" by linarith
  moreover have "\<lceil>(angleDiff - 2 * pi - pi) / (2 * pi)\<rceil> = \<lceil>(angleDiff - pi) / (2 * pi)\<rceil> - 1"
    by (simp only: eq ceiling_diff_one)
  ultimately show "(angleDiff - 2 * pi, angleDiff) \<in> measure (\<lambda>d. nat \<lceil>(d - pi) / (2 * pi)\<rceil>)"
    by (simp only: in_measure)
qed

declare norm_down.simps [simp del]

function norm_up :: "real \<Rightarrow> real" where
  "norm_up angleDiff = (if angleDiff < - pi then norm_up (angleDiff + 2 * pi) else angleDiff)"
  by pat_completeness auto
termination
proof (relation "measure (\<lambda>d. nat \<lceil>(- pi - d) / (2 * pi)\<rceil>)")
  show "wf (measure (\<lambda>d. nat \<lceil>(- pi - d) / (2 * pi)\<rceil>))" by simp
next
  fix angleDiff :: real
  assume lt: "angleDiff < - pi"
  have eq: "(- pi - (angleDiff + 2 * pi)) / (2 * pi) = (- pi - angleDiff) / (2 * pi) - 1"
    by (simp add: field_simps)
  have pos: "0 < (- pi - angleDiff) / (2 * pi)" using lt by simp
  then have "0 < \<lceil>(- pi - angleDiff) / (2 * pi)\<rceil>" by linarith
  moreover have "\<lceil>(- pi - (angleDiff + 2 * pi)) / (2 * pi)\<rceil> = \<lceil>(- pi - angleDiff) / (2 * pi)\<rceil> - 1"
    by (simp only: eq ceiling_diff_one)
  ultimately show "(angleDiff + 2 * pi, angleDiff) \<in> measure (\<lambda>d. nat \<lceil>(- pi - d) / (2 * pi)\<rceil>)"
    by (simp only: in_measure)
qed

declare norm_up.simps [simp del]

definition steer :: "simulationConfig \<Rightarrow> real \<Rightarrow> real \<Rightarrow> real" where
  \<comment> \<open>The new heading of \<^verbatim>\<open>move\<close> before the random perturbation.\<close>
  "steer s currentAngle desiredAngle =
     (let angleDiff = desiredAngle - currentAngle;
          angleDiff = norm_down angleDiff;
          angleDiff = norm_up angleDiff;
          turn = constrain angleDiff (- TURN_ANGLE s) (TURN_ANGLE s)
      in currentAngle + turn)"

text \<open>
  In \<open>move\<close>, the position is at last constrained to the canvas; \<^verbatim>\<open>setup\<close> creates
  the canvas \<open>CELL_SIZE * GRID_COLS\<close> wide and \<open>CELL_SIZE * GRID_ROWS\<close> high, which are
  also the values the source falls back to.
\<close>

definition move :: "simulationConfig \<Rightarrow> ant \<Rightarrow> (ant \<times> simulationConfig) option" where
  "move s a =
     (case senseAndDecideAngle s a of
        None \<Rightarrow> None
      | Some (desiredAngle, s1) \<Rightarrow>
         (let currentAngle = heading (vel a);
              newAngle = steer s currentAngle desiredAngle
          in case random_range s1 0 1 of (chance, s2) \<Rightarrow>
             (case (if chance < RANDOM_TURN_CHANCE s
                    then (case random_range s2 (- TURN_ANGLE s * 0.5) (TURN_ANGLE s * 0.5) of
                            (r, s3) \<Rightarrow> (newAngle + r, s3))
                    else (newAngle, s2)) of
                (newAngle, s3) \<Rightarrow>
                  (let v = mult (fromAngle newAngle) (ANT_SPEED s);
                       nextPos = add_vec (pos a) v;
                       nextGrid = pixelToGrid s (fst nextPos) (snd nextPos)
                   in case (if isValidGridPos (GRID_COLS s) (GRID_ROWS s) (fst nextGrid) (snd nextGrid)
                               \<and> cell_at (maze s) (fst nextGrid) (snd nextGrid) \<noteq> Wall
                            then (a\<lparr>vel := v, pos := nextPos\<rparr>, s3)
                            else (case random2D s3 of (w, s4) \<Rightarrow>
                                    (a\<lparr>vel := mult w (ANT_SPEED s)\<rparr>, s4))) of
                        (a', s4) \<Rightarrow>
                          Some (a'\<lparr>pos := (constrain (fst (pos a')) 0 (CELL_SIZE s * real_of_int (GRID_COLS s)),
                                            constrain (snd (pos a')) 0 (CELL_SIZE s * real_of_int (GRID_ROWS s)))\<rparr>,
                                s4)))))"

subsubsection \<open>Depositing\<close>

definition depositPheromone :: "simulationConfig \<Rightarrow> ant \<Rightarrow> simulationConfig" where
  "depositPheromone s a =
     (let gridX = fst (gridPos a); gridY = snd (gridPos a)
      in if charge a \<le> 0 then s
         else if isValidGridPos (GRID_COLS s) (GRID_ROWS s) gridX gridY then
           (if state a = Searching then
              (let currentDepositionRate = map_p5 (charge a) 0 (PHEROMONE_DURATION s) 0 (DEPOSITION_RATE_EXPLORE s);
                   currentDepositionRate = max 0 currentDepositionRate;
                   g = explorePheromones s;
                   g = cell_set g gridX gridY (cell_at g gridX gridY + currentDepositionRate);
                   g = cell_set g gridX gridY (min (cell_at g gridX gridY) (PHEROMONE_MAX s))
               in s\<lparr>explorePheromones := g\<rparr>)
            else
              (let currentDepositionRate = map_p5 (charge a) 0 (PHEROMONE_DURATION s) 0 (DEPOSITION_RATE_RETURN s);
                   currentDepositionRate = max 0 currentDepositionRate;
                   g = returnPheromones s;
                   g = cell_set g gridX gridY (cell_at g gridX gridY + currentDepositionRate);
                   g = cell_set g gridX gridY (min (cell_at g gridX gridY) (PHEROMONE_MAX s))
               in s\<lparr>returnPheromones := g\<rparr>))
         else s)"

subsubsection \<open>One update of one ant\<close>

definition update :: "simulationConfig \<Rightarrow> ant \<Rightarrow> (ant \<times> simulationConfig) option" where
  "update s a =
     (let a = updateGridPos s a
      in case checkEnvironment s a of (a, s) \<Rightarrow>
         (let a = a\<lparr>charge := max 0 (charge a - 1)\<rparr>
          in case move s a of
               None \<Rightarrow> None
             | Some (a, s) \<Rightarrow>
                 (let s = depositPheromone s a;
                      a = addToHistory s a
                  in Some (a, s))))"

subsection \<open>One frame\<close>

text \<open>
  \<^verbatim>\<open>for (let i = ants.length - 1; i >= 0; i--) ants[i].update()\<close>: the first argument
  is the number of ants still to be updated, the next index is one less.
\<close>

fun update_ants_below :: "nat \<Rightarrow> simulationConfig \<Rightarrow> simulationConfig option" where
  "update_ants_below 0 s = Some s"
| "update_ants_below (Suc i) s =
     (case update s (ants s ! i) of
        None \<Rightarrow> None
      | Some (a, s') \<Rightarrow> update_ants_below i (s'\<lparr>ants := (ants s')[i := a]\<rparr>))"

definition updateAndDrawAnts :: "simulationConfig \<Rightarrow> simulationConfig option" where
  "updateAndDrawAnts s = update_ants_below (length (ants s)) s"

definition spawnNewAnts :: "real \<Rightarrow> simulationConfig \<Rightarrow> simulationConfig" where
  \<comment> \<open>The first argument is the value of \<^verbatim>\<open>millis()\<close>.\<close>
  "spawnNewAnts now s =
     (if real (length (ants s)) < NUM_ANTS s \<and> now - lastAntSpawnTime s > SPAWN_INTERVAL s
      then (case new_ant s (fst (colonyPos s)) (snd (colonyPos s)) of
              (a, s') \<Rightarrow> s'\<lparr>ants := ants s' @ [a], lastAntSpawnTime := now\<rparr>)
      else s)"

definition draw :: "real \<Rightarrow> simulationConfig \<Rightarrow> simulationConfig option" where
  "draw now s = map_option (spawnNewAnts now) (updateAndDrawAnts (updatePheromones s))"

subsection \<open>Array accesses of the setup code\<close>

text \<open>
  In the code that runs once in \<^verbatim>\<open>setup\<close>, an array access outside the array is a
  fault of the model (\<open>Inl OutOfBounds\<close>). JavaScript raises a \<^verbatim>\<open>TypeError\<close> when the
  column does not exist, and reads \<^verbatim>\<open>undefined\<close> or silently extends the column when
  only the row is out of range; the model is stricter and reports both.
\<close>

datatype fault = OutOfBounds

definition grid_read :: "'a grid \<Rightarrow> int \<Rightarrow> int \<Rightarrow> fault + 'a" where
  "grid_read g x y =
     (if 0 \<le> x \<and> x < int (length g) \<and> 0 \<le> y \<and> y < int (length (g ! nat x))
      then Inr (g ! nat x ! nat y) else Inl OutOfBounds)"

definition grid_write :: "'a grid \<Rightarrow> int \<Rightarrow> int \<Rightarrow> 'a \<Rightarrow> fault + 'a grid" where
  "grid_write g x y v =
     (if 0 \<le> x \<and> x < int (length g) \<and> 0 \<le> y \<and> y < int (length (g ! nat x))
      then Inr (g[nat x := (g ! nat x)[nat y := v]]) else Inl OutOfBounds)"

subsection \<open>Maze generation\<close>

text \<open>
  What \<^verbatim>\<open>generateMaze\<close> returns, and the variables of its loop: the maze, the cells
  visited, the stack (its top is the head of the list) and the number of random values
  drawn so far. The random values are the argument \<open>rng\<close>, each in \<open>[0, 1)\<close>.
\<close>

record maze_result =
  grid :: "cell grid"
  finalCols :: int
  finalRows :: int

record carving =
  c_maze :: "cell grid"
  c_visited :: "bool grid"
  c_stack :: "gridpos list"
  c_draws :: nat

text \<open>The dimension used: odd, and at least \<open>3\<close>.\<close>

definition maze_dimension :: "int \<Rightarrow> int" where
  "maze_dimension cols =
     (let mazeCols = (if cols mod 2 = 0 then cols - 1 else cols)
      in if mazeCols < 3 then 3 else mazeCols)"

text \<open>\<^verbatim>\<open>random(array)\<close> of p5.js: the element at index \<open>floor(u * length)\<close>.\<close>

definition random_element :: "real \<Rightarrow> 'a list \<Rightarrow> fault + 'a" where
  "random_element u xs =
     (let i = \<lfloor>u * real (length xs)\<rfloor>
      in if 0 \<le> i \<and> i < int (length xs) then Inr (xs ! nat i) else Inl OutOfBounds)"

definition potentialNeighbors :: "gridpos \<Rightarrow> gridpos list" where
  "potentialNeighbors current =
     [(fst current, snd current - 2), (fst current + 2, snd current),
      (fst current, snd current + 2), (fst current - 2, snd current)]"

text \<open>The loop that collects the unvisited neighbours two cells away, inside the border.\<close>

fun unvisited_neighbors :: "int \<Rightarrow> int \<Rightarrow> bool grid \<Rightarrow> gridpos list \<Rightarrow> fault + gridpos list" where
  "unvisited_neighbors mazeCols mazeRows visited [] = Inr []"
| "unvisited_neighbors mazeCols mazeRows visited (n # ns) =
     (if fst n > 0 \<and> fst n < mazeCols - 1 \<and> snd n > 0 \<and> snd n < mazeRows - 1
      then (case grid_read visited (fst n) (snd n) of
              Inl e \<Rightarrow> Inl e
            | Inr v \<Rightarrow>
                (case unvisited_neighbors mazeCols mazeRows visited ns of
                   Inl e \<Rightarrow> Inl e
                 | Inr neighbors \<Rightarrow> Inr (if \<not> v then n # neighbors else neighbors)))
      else unvisited_neighbors mazeCols mazeRows visited ns)"

text \<open>
  One round of the \<^verbatim>\<open>while\<close> loop: \<open>Inr None\<close> when the stack is empty and the loop
  ends, otherwise the variables after the round.
\<close>

definition carve_step :: "int \<Rightarrow> int \<Rightarrow> (nat \<Rightarrow> real) \<Rightarrow> carving \<Rightarrow> fault + carving option" where
  "carve_step mazeCols mazeRows rng st =
     (case c_stack st of
        [] \<Rightarrow> Inr None
      | current # below \<Rightarrow>
          (case unvisited_neighbors mazeCols mazeRows (c_visited st) (potentialNeighbors current) of
             Inl e \<Rightarrow> Inl e
           | Inr neighbors \<Rightarrow>
               if length neighbors > 0 then
                 (case random_element (rng (c_draws st)) neighbors of
                    Inl e \<Rightarrow> Inl e
                  | Inr chosen \<Rightarrow>
                      (let wallX = fst current + (fst chosen - fst current) div 2;
                           wallY = snd current + (snd chosen - snd current) div 2
                       in case grid_write (c_maze st) wallX wallY Path of
                            Inl e \<Rightarrow> Inl e
                          | Inr maze1 \<Rightarrow>
                              (case grid_write (c_visited st) (fst chosen) (snd chosen) True of
                                 Inl e \<Rightarrow> Inl e
                               | Inr visited1 \<Rightarrow>
                                   (case grid_write maze1 (fst chosen) (snd chosen) Path of
                                      Inl e \<Rightarrow> Inl e
                                    | Inr maze2 \<Rightarrow>
                                        Inr (Some \<lparr>c_maze = maze2, c_visited = visited1,
                                                   c_stack = chosen # c_stack st,
                                                   c_draws = Suc (c_draws st)\<rparr>)))))
               else Inr (Some (st\<lparr>c_stack := below\<rparr>))))"

text \<open>
  The loop ends: a round either marks a cell visited that was not, or takes a cell off the
  stack.
\<close>

definition unvisited_count :: "bool grid \<Rightarrow> nat" where
  "unvisited_count visited = sum_list (map (\<lambda>col. length (filter Not col)) visited)"

lemma unvisited_neighbors_sound:
  "unvisited_neighbors mc mr vis ns = Inr res \<Longrightarrow> n \<in> set res \<Longrightarrow>
     n \<in> set ns \<and> grid_read vis (fst n) (snd n) = Inr False
     \<and> fst n > 0 \<and> fst n < mc - 1 \<and> snd n > 0 \<and> snd n < mr - 1"
proof (induction ns arbitrary: res)
  case Nil
  then show ?case by simp
next
  case (Cons m ns)
  show ?case
  proof (cases "fst m > 0 \<and> fst m < mc - 1 \<and> snd m > 0 \<and> snd m < mr - 1")
    case False
    with Cons.prems have "unvisited_neighbors mc mr vis ns = Inr res" by auto
    from Cons.IH[OF this Cons.prems(2)] show ?thesis by simp
  next
    case True
    with Cons.prems(1) obtain v rest where v: "grid_read vis (fst m) (snd m) = Inr v"
      and rest: "unvisited_neighbors mc mr vis ns = Inr rest"
      and res: "res = (if \<not> v then m # rest else rest)"
      by (auto split: sum.splits)
    show ?thesis
    proof (cases "n \<in> set rest")
      case True
      from Cons.IH[OF rest True] show ?thesis by simp
    next
      case False
      with Cons.prems(2) res have "n = m" "\<not> v" by (auto split: if_splits)
      with v True show ?thesis by simp
    qed
  qed
qed

lemma random_element_member:
  assumes "random_element u xs = Inr x"
  shows "x \<in> set xs"
proof -
  let ?i = "\<lfloor>u * real (length xs)\<rfloor>"
  from assms have range: "0 \<le> ?i \<and> ?i < int (length xs)" and x: "x = xs ! nat ?i"
    by (auto simp: random_element_def Let_def split: if_splits)
  from range have "nat ?i < length xs" by linarith
  with x show ?thesis by simp
qed

lemma filter_update_count:
  assumes "j < length xs" and "\<not> xs ! j"
  shows "length (filter Not (xs[j := True])) < length (filter Not xs)"
proof -
  have xs: "xs = take j xs @ xs ! j # drop (Suc j) xs" using assms(1) by (rule id_take_nth_drop)
  have "xs[j := True] = take j xs @ True # drop (Suc j) xs" using assms(1) by (rule upd_conv_take_nth_drop)
  then have "length (filter Not (xs[j := True])) = length (filter Not (take j xs)) + length (filter Not (drop (Suc j) xs))"
    by simp
  moreover have "length (filter Not xs) = length (filter Not (take j xs)) + Suc (length (filter Not (drop (Suc j) xs)))"
    by (subst xs) (simp add: assms(2))
  ultimately show ?thesis by simp
qed

lemma unvisited_count_write:
  assumes "grid_read vis x y = Inr False" and "grid_write vis x y True = Inr vis'"
  shows "unvisited_count vis' < unvisited_count vis"
proof -
  from assms(1) have x: "nat x < length vis" and y: "nat y < length (vis ! nat x)"
    and f: "\<not> vis ! nat x ! nat y"
    by (auto simp: grid_read_def split: if_splits)
  from assms(2) have vis': "vis' = vis[nat x := (vis ! nat x)[nat y := True]]"
    by (auto simp: grid_write_def split: if_splits)
  let ?c = "\<lambda>col. length (filter Not col)"
  have old: "vis = take (nat x) vis @ vis ! nat x # drop (Suc (nat x)) vis"
    using x by (rule id_take_nth_drop)
  have new: "vis' = take (nat x) vis @ (vis ! nat x)[nat y := True] # drop (Suc (nat x)) vis"
    unfolding vis' using x by (rule upd_conv_take_nth_drop)
  have "unvisited_count vis' = sum_list (map ?c (take (nat x) vis)) + ?c ((vis ! nat x)[nat y := True])
          + sum_list (map ?c (drop (Suc (nat x)) vis))"
    unfolding unvisited_count_def by (subst new) simp
  moreover have "unvisited_count vis = sum_list (map ?c (take (nat x) vis)) + ?c (vis ! nat x)
          + sum_list (map ?c (drop (Suc (nat x)) vis))"
    unfolding unvisited_count_def by (subst old) simp
  moreover have "?c ((vis ! nat x)[nat y := True]) < ?c (vis ! nat x)"
    using y f by (rule filter_update_count)
  ultimately show ?thesis by simp
qed

lemma carve_step_decreases:
  assumes "carve_step mc mr rng st = Inr (Some st')"
  shows "unvisited_count (c_visited st') < unvisited_count (c_visited st)
       \<or> (unvisited_count (c_visited st') = unvisited_count (c_visited st)
          \<and> length (c_stack st') < length (c_stack st))"
proof -
  from assms obtain current below where stack: "c_stack st = current # below"
    by (auto simp: carve_step_def split: list.splits)
  from assms stack obtain neighbors
    where nb: "unvisited_neighbors mc mr (c_visited st) (potentialNeighbors current) = Inr neighbors"
    by (auto simp: carve_step_def split: sum.splits)
  show ?thesis
  proof (cases "length neighbors > 0")
    case False
    with assms stack nb have "st' = st\<lparr>c_stack := below\<rparr>"
      by (simp add: carve_step_def)
    with stack show ?thesis by simp
  next
    case True
    with assms stack nb obtain chosen visited1
      where ch: "random_element (rng (c_draws st)) neighbors = Inr chosen"
        and w: "grid_write (c_visited st) (fst chosen) (snd chosen) True = Inr visited1"
        and v': "c_visited st' = visited1"
      by (auto simp: carve_step_def Let_def split: sum.splits)
    from random_element_member[OF ch] unvisited_neighbors_sound[OF nb]
    have "grid_read (c_visited st) (fst chosen) (snd chosen) = Inr False" by blast
    from unvisited_count_write[OF this w] v' show ?thesis by simp
  qed
qed

function carve :: "int \<Rightarrow> int \<Rightarrow> (nat \<Rightarrow> real) \<Rightarrow> carving \<Rightarrow> fault + carving" where
  "carve mazeCols mazeRows rng st =
     (case carve_step mazeCols mazeRows rng st of
        Inl e \<Rightarrow> Inl e
      | Inr None \<Rightarrow> Inr st
      | Inr (Some st') \<Rightarrow> carve mazeCols mazeRows rng st')"
  by pat_completeness auto
termination
proof (relation "measures [\<lambda>(mc :: int, mr :: int, rng :: nat \<Rightarrow> real, st :: carving).
                              unvisited_count (c_visited st),
                           \<lambda>(mc, mr, rng, st). length (c_stack st)]")
  show "wf (measures [\<lambda>(mc :: int, mr :: int, rng :: nat \<Rightarrow> real, st :: carving).
                              unvisited_count (c_visited st),
                           \<lambda>(mc, mr, rng, st). length (c_stack st)])"
    by simp
next
  fix mazeCols mazeRows :: int and rng :: "nat \<Rightarrow> real" and st :: carving and x2 st'
  assume "carve_step mazeCols mazeRows rng st = Inr x2" and "x2 = Some st'"
  then have "carve_step mazeCols mazeRows rng st = Inr (Some st')" by simp
  from carve_step_decreases[OF this]
  show "((mazeCols, mazeRows, rng, st'), (mazeCols, mazeRows, rng, st))
          \<in> measures [\<lambda>(mc :: int, mr :: int, rng :: nat \<Rightarrow> real, st :: carving).
                              unvisited_count (c_visited st),
                           \<lambda>(mc, mr, rng, st). length (c_stack st)]"
    by auto
qed

declare carve.simps [simp del]

text \<open>The start cell, with the fallback of the source when it is out of range.\<close>

definition start_cell :: "(nat \<Rightarrow> real) \<Rightarrow> int \<Rightarrow> int \<Rightarrow> gridpos" where
  "start_cell rng mazeCols mazeRows =
     (let startX = \<lfloor>rng 0 * (real_of_int (mazeCols - 1) / 2)\<rfloor> * 2 + 1;
          startY = \<lfloor>rng 1 * (real_of_int (mazeRows - 1) / 2)\<rfloor> * 2 + 1
      in if startX < 0 \<or> startX \<ge> mazeCols \<or> startY < 0 \<or> startY \<ge> mazeRows
         then (1, 1) else (startX, startY))"

definition generateMaze :: "(nat \<Rightarrow> real) \<Rightarrow> int \<Rightarrow> int \<Rightarrow> fault + maze_result" where
  "generateMaze rng cols rows =
     (let mazeCols = maze_dimension cols;
          mazeRows = maze_dimension rows;
          maze = createGrid mazeCols mazeRows Wall;
          visited = createGrid mazeCols mazeRows False;
          current = start_cell rng mazeCols mazeRows
      in case grid_write visited (fst current) (snd current) True of
           Inl e \<Rightarrow> Inl e
         | Inr visited \<Rightarrow>
        (case grid_write maze (fst current) (snd current) Path of
           Inl e \<Rightarrow> Inl e
         | Inr maze \<Rightarrow>
        (case carve mazeCols mazeRows rng
                \<lparr>c_maze = maze, c_visited = visited, c_stack = [current], c_draws = 2\<rparr> of
           Inl e \<Rightarrow> Inl e
         | Inr st \<Rightarrow>
        (case grid_write (c_maze st) 1 1 Path of
           Inl e \<Rightarrow> Inl e
         | Inr maze \<Rightarrow>
        (case (if mazeCols > 2 \<and> mazeRows > 2
               then grid_write maze (mazeCols - 2) (mazeRows - 2) Path else Inr maze) of
           Inl e \<Rightarrow> Inl e
         | Inr maze \<Rightarrow> Inr \<lparr>grid = maze, finalCols = mazeCols, finalRows = mazeRows\<rparr>)))))"

subsection \<open>Placing colony and food\<close>

text \<open>
  \<^verbatim>\<open>findValidPosition\<close>: the three nested loops, innermost first. \<open>Inr None\<close> says
  that the loop ran to its end, \<open>Inr (Some p)\<close> that the function returned \<open>p\<close>. The
  result \<open>Inr None\<close> of the whole function is \<^verbatim>\<open>null\<close>.
\<close>

function scan_j :: "simulationConfig \<Rightarrow> int \<Rightarrow> int \<Rightarrow> int \<Rightarrow> int \<Rightarrow> int \<Rightarrow> fault + gridpos option" where
  "scan_j s targetX targetY radius i j =
     (if j \<le> radius then
        (if \<bar>i\<bar> \<noteq> radius \<and> \<bar>j\<bar> \<noteq> radius then scan_j s targetX targetY radius i (j + 1)
         else (let checkX = targetX + i; checkY = targetY + j
               in if isValidGridPos (GRID_COLS s) (GRID_ROWS s) checkX checkY
                  then (case grid_read (maze s) checkX checkY of
                          Inl e \<Rightarrow> Inl e
                        | Inr c \<Rightarrow> if c = Path then Inr (Some (checkX, checkY))
                                   else scan_j s targetX targetY radius i (j + 1))
                  else scan_j s targetX targetY radius i (j + 1)))
      else Inr None)"
  by pat_completeness auto
termination
  by (relation "measure (\<lambda>(s, targetX, targetY, radius, i, j). nat (radius + 1 - j))") auto

declare scan_j.simps [simp del]

function scan_i :: "simulationConfig \<Rightarrow> int \<Rightarrow> int \<Rightarrow> int \<Rightarrow> int \<Rightarrow> fault + gridpos option" where
  "scan_i s targetX targetY radius i =
     (if i \<le> radius then
        (case scan_j s targetX targetY radius i (- radius) of
           Inl e \<Rightarrow> Inl e
         | Inr (Some p) \<Rightarrow> Inr (Some p)
         | Inr None \<Rightarrow> scan_i s targetX targetY radius (i + 1))
      else Inr None)"
  by pat_completeness auto
termination
  by (relation "measure (\<lambda>(s, targetX, targetY, radius, i). nat (radius + 1 - i))") auto

declare scan_i.simps [simp del]

function scan_radius :: "simulationConfig \<Rightarrow> int \<Rightarrow> int \<Rightarrow> int \<Rightarrow> fault + gridpos option" where
  "scan_radius s targetX targetY radius =
     (if radius < max (GRID_COLS s) (GRID_ROWS s) then
        (case scan_i s targetX targetY radius (- radius) of
           Inl e \<Rightarrow> Inl e
         | Inr (Some p) \<Rightarrow> Inr (Some p)
         | Inr None \<Rightarrow> scan_radius s targetX targetY (radius + 1))
      else Inr None)"
  by pat_completeness auto
termination
  by (relation "measure (\<lambda>(s, targetX, targetY, radius). nat (max (GRID_COLS s) (GRID_ROWS s) - radius))") auto

declare scan_radius.simps [simp del]

definition findValidPosition :: "simulationConfig \<Rightarrow> int \<Rightarrow> int \<Rightarrow> fault + gridpos option" where
  "findValidPosition s targetX targetY =
     (let targetX = constrain targetX 0 (GRID_COLS s - 1);
          targetY = constrain targetY 0 (GRID_ROWS s - 1)
      in case grid_read (maze s) targetX targetY of
           Inl e \<Rightarrow> Inl e
         | Inr c \<Rightarrow> if c = Path then Inr (Some (targetX, targetY))
                    else scan_radius s targetX targetY 1)"

subsection \<open>Evaporation in double precision\<close>

text \<open>
  The numbers of the program are IEEE 754 doubles (binary64), and every operation rounds
  its exact result to the nearest double, a tie going to the double with the even
  significand. For the bounds on the grids this makes no difference, but for the decay it
  does: \<^verbatim>\<open>1.0 - evapRate\<close> is rounded, and for a small rate the rounded factor is
  \<open>1.0\<close>. So the evaporation is modelled a second time, with the two operations of
  \<^verbatim>\<open>explore[i][j] *= 1.0 - evapRate\<close> and the literal \<^verbatim>\<open>0.01\<close> rounded.

  \<open>round_ties_even\<close> rounds a real number to the nearest integer, a tie to the even one.
\<close>

definition round_ties_even :: "real \<Rightarrow> int" where
  "round_ties_even q =
     (let n = \<lfloor>q\<rfloor>; r = q - of_int n
      in if r < 1 / 2 then n else if 1 / 2 < r then n + 1 else if even n then n else n + 1)"

text \<open>
  The exponent of a double: the largest \<open>e\<close> from \<open>-1022\<close> to \<open>1023\<close> with
  \<open>2\<^sup>e \<le> \<bar>x\<bar>\<close>, and \<open>-1022\<close> for the subnormal numbers and zero, found by going
  down from \<open>1023\<close>.
\<close>

fun exponent_search :: "nat \<Rightarrow> real \<Rightarrow> int" where
  "exponent_search 0 x = - 1022"
| "exponent_search (Suc n) x =
     (if 2 powi (int n - 1021) \<le> x then int n - 1021 else exponent_search n x)"

definition exponent64 :: "real \<Rightarrow> int" where
  "exponent64 x = exponent_search 2045 \<bar>x\<bar>"

text \<open>
  The double nearest to a real number: doubles of exponent \<open>e\<close> are the multiples of
  \<open>2\<^sup>e\<^sup>-\<^sup>5\<^sup>2\<close>. Numbers of magnitude \<open>2\<^sup>1\<^sup>0\<^sup>2\<^sup>4\<close> and more, which the
  program would round to \<open>Infinity\<close>, are not treated apart: the evaporation computes a
  difference in \<open>[0, 1]\<close> and products that are not larger than the value of the cell.
\<close>

definition binary64 :: "real \<Rightarrow> real" where
  "binary64 x =
     (let ulp = 2 powi (exponent64 x - 52)
      in of_int (round_ties_even (x / ulp)) * ulp)"

text \<open>
  The body of the double loop of \<^verbatim>\<open>updatePheromones\<close>, the loops, what they do to the
  value of one cell, and the function, as in the subsection on evaporation above but in
  double precision.
\<close>

definition evaporate_body_binary64 :: "real \<Rightarrow> int \<Rightarrow> int \<Rightarrow> real grid \<times> real grid \<Rightarrow> real grid \<times> real grid" where
  "evaporate_body_binary64 evapRate i j er =
     (let explore = fst er; returnPher = snd er;
          explore = cell_set explore i j (binary64 (cell_at explore i j * binary64 (1.0 - evapRate)));
          returnPher = cell_set returnPher i j (binary64 (cell_at returnPher i j * binary64 (1.0 - evapRate)));
          explore = (if cell_at explore i j < binary64 0.01 then cell_set explore i j 0 else explore);
          returnPher = (if cell_at returnPher i j < binary64 0.01 then cell_set returnPher i j 0 else returnPher)
      in (explore, returnPher))"

definition evaporate_grids_binary64 :: "int \<Rightarrow> int \<Rightarrow> real \<Rightarrow> real grid \<times> real grid \<Rightarrow> real grid \<times> real grid" where
  "evaporate_grids_binary64 cols rows evapRate er =
     fold (\<lambda>i. fold (\<lambda>j. evaporate_body_binary64 evapRate (int i) (int j)) [0..<nat rows]) [0..<nat cols] er"

definition evaporate_cell_binary64 :: "real \<Rightarrow> real \<Rightarrow> real" where
  "evaporate_cell_binary64 evapRate v =
     (if binary64 (v * binary64 (1 - evapRate)) < binary64 0.01 then 0
      else binary64 (v * binary64 (1 - evapRate)))"

definition updatePheromones_binary64 :: "simulationConfig \<Rightarrow> simulationConfig" where
  "updatePheromones_binary64 s =
     (case evaporate_grids_binary64 (GRID_COLS s) (GRID_ROWS s) (EVAPORATION_RATE s)
             (explorePheromones s, returnPheromones s) of
        (explore, returnPher) \<Rightarrow> s\<lparr>explorePheromones := explore, returnPheromones := returnPher\<rparr>)"


subsection \<open>Well-formed states and an example\<close>

text \<open>
  Connectivity of a maze: path cells, orthogonal neighbours, and the cells that can be
  reached from a start cell over path cells, which are the cells a breadth-first search
  from the start cell visits.
\<close>

definition is_path :: "cell grid \<Rightarrow> gridpos \<Rightarrow> bool" where
  "is_path g p \<longleftrightarrow> grid_read g (fst p) (snd p) = Inr Path"

definition adjacent :: "gridpos \<Rightarrow> gridpos \<Rightarrow> bool" where
  "adjacent p q \<longleftrightarrow> \<bar>fst p - fst q\<bar> + \<bar>snd p - snd q\<bar> = 1"

inductive reachable :: "cell grid \<Rightarrow> gridpos \<Rightarrow> gridpos \<Rightarrow> bool" for g start where
  here: "is_path g start \<Longrightarrow> reachable g start start"
| step: "reachable g start p \<Longrightarrow> adjacent p q \<Longrightarrow> is_path g q \<Longrightarrow> reachable g start q"

code_pred reachable .

text \<open>The random values are in \<open>[0, 1)\<close>, as \<^verbatim>\<open>Math.random()\<close> returns them.\<close>

definition unit_draws :: "(nat \<Rightarrow> real) \<Rightarrow> bool" where
  "unit_draws rng \<longleftrightarrow> (\<forall>k. 0 \<le> rng k \<and> rng k < 1)"

text \<open>Cells strictly inside the border, and the invariant of the carving loop.\<close>

definition interior :: "int \<Rightarrow> int \<Rightarrow> gridpos \<Rightarrow> bool" where
  "interior mazeCols mazeRows p \<longleftrightarrow>
     0 < fst p \<and> fst p < mazeCols - 1 \<and> 0 < snd p \<and> snd p < mazeRows - 1"

definition is_visited :: "bool grid \<Rightarrow> gridpos \<Rightarrow> bool" where
  "is_visited v p \<longleftrightarrow> grid_read v (fst p) (snd p) = Inr True"

definition carve_inv :: "int \<Rightarrow> int \<Rightarrow> gridpos \<Rightarrow> carving \<Rightarrow> bool" where
  "carve_inv mc mr start st \<longleftrightarrow>
     grid_shape mc mr (c_maze st) \<and> grid_shape mc mr (c_visited st)
   \<and> (\<forall>p \<in> set (c_stack st). interior mc mr p \<and> is_visited (c_visited st) p)
   \<and> (\<forall>p. is_visited (c_visited st) p \<longrightarrow> is_path (c_maze st) p)
   \<and> (\<forall>p. is_path (c_maze st) p \<longrightarrow> interior mc mr p \<and> reachable (c_maze st) start p)
   \<and> is_visited (c_visited st) start
   \<and> (\<forall>p. is_visited (c_visited st) p \<and> p \<notin> set (c_stack st) \<longrightarrow>
           (\<forall>n \<in> set (potentialNeighbors p). interior mc mr n \<longrightarrow> is_visited (c_visited st) n))"

text \<open>
  \<^verbatim>\<open>setup\<close> creates both pheromone grids with \<open>createGrid(GRID_COLS, GRID_ROWS, 0)\<close>,
  and nothing resizes them afterwards.
\<close>

definition pheromone_shape :: "simulationConfig \<Rightarrow> bool" where
  "pheromone_shape s \<longleftrightarrow>
     grid_shape (GRID_COLS s) (GRID_ROWS s) (explorePheromones s) \<and>
     grid_shape (GRID_COLS s) (GRID_ROWS s) (returnPheromones s)"

text \<open>
  The maze has the configured size, and that size is at least one cell each way.
\<close>

definition maze_shape :: "simulationConfig \<Rightarrow> bool" where
  "maze_shape s \<longleftrightarrow> 1 \<le> GRID_COLS s \<and> 1 \<le> GRID_ROWS s
     \<and> grid_shape (GRID_COLS s) (GRID_ROWS s) (maze s)"

text \<open>A cell of the grid that is a path.\<close>

definition open_cell :: "simulationConfig \<Rightarrow> gridpos \<Rightarrow> bool" where
  "open_cell s p \<longleftrightarrow> isValidGridPos (GRID_COLS s) (GRID_ROWS s) (fst p) (snd p)
     \<and> cell_at (maze s) (fst p) (snd p) = Path"

text \<open>
  The search as the specification describes it: the cells at Chebyshev distance \<open>radius\<close>
  from the target, column by column, and the first path cell on the rings of radius
  \<open>1\<close> up to the larger grid dimension less one.
\<close>

definition ring :: "int \<Rightarrow> int \<Rightarrow> int \<Rightarrow> gridpos list" where
  "ring targetX targetY radius =
     concat (map (\<lambda>i. map (\<lambda>j. (targetX + i, targetY + j))
                        (filter (\<lambda>j. \<bar>i\<bar> = radius \<or> \<bar>j\<bar> = radius) [- radius..radius]))
                 [- radius..radius])"

definition ring_search :: "simulationConfig \<Rightarrow> int \<Rightarrow> int \<Rightarrow> gridpos option" where
  "ring_search s targetX targetY =
     find (open_cell s)
       (concat (map (ring targetX targetY) [1..max (GRID_COLS s) (GRID_ROWS s) - 1]))"

definition clamped_target :: "simulationConfig \<Rightarrow> int \<Rightarrow> int \<Rightarrow> gridpos" where
  "clamped_target s targetX targetY =
     (constrain targetX 0 (GRID_COLS s - 1), constrain targetY 0 (GRID_ROWS s - 1))"

definition chebyshev :: "gridpos \<Rightarrow> gridpos \<Rightarrow> int" where
  "chebyshev p q = max \<bar>fst p - fst q\<bar> \<bar>snd p - snd q\<bar>"

text \<open>Applying a function to one cell of a grid.\<close>

definition touch :: "(real \<Rightarrow> real) \<Rightarrow> nat \<Rightarrow> nat \<Rightarrow> real grid \<Rightarrow> real grid" where
  "touch f i j g = g[i := (g ! i)[j := f (g ! i ! j)]]"

text \<open>
  The bound on the pheromone values, and the states the two grids can be in: the starting
  state, and any state that an evaporation or the deposit of some ant leads to.
\<close>

definition grid_all :: "('a \<Rightarrow> bool) \<Rightarrow> 'a grid \<Rightarrow> bool" where
  "grid_all P g \<longleftrightarrow> list_all (list_all P) g"

definition pheromone_bounded :: "simulationConfig \<Rightarrow> bool" where
  "pheromone_bounded s \<longleftrightarrow>
     grid_all (\<lambda>v. 0 \<le> v \<and> v \<le> PHEROMONE_MAX s) (explorePheromones s) \<and>
     grid_all (\<lambda>v. 0 \<le> v \<and> v \<le> PHEROMONE_MAX s) (returnPheromones s)"

inductive field_reachable :: "simulationConfig \<Rightarrow> simulationConfig \<Rightarrow> bool" for s0 where
  start: "field_reachable s0 s0"
| evaporate: "field_reachable s0 s \<Longrightarrow> field_reachable s0 (updatePheromones s)"
| deposit: "field_reachable s0 s \<Longrightarrow> field_reachable s0 (depositPheromone s a)"

text \<open>
  Two states that differ at most in the count of food found and in the number of random
  values drawn.
\<close>

definition only_counters :: "simulationConfig \<Rightarrow> simulationConfig \<Rightarrow> bool" where
  "only_counters s s' \<longleftrightarrow> (\<exists>k n. s' = s\<lparr>foodFoundCount := k, rand_used := n\<rparr>)"

text \<open>
  What the sensing loops use in each round: the direction, the factor of the inner loop
  and the distance \<open>senseDist\<close> computed from it.
\<close>

definition probe_rounds :: "probe list \<Rightarrow> (real \<times> real \<times> real) list" where
  "probe_rounds ps = map (\<lambda>p. (checkAngle p, distMultiplier p, senseDist p)) ps"

text \<open>
  A small state for the examples: the parameters of the source on a grid of seven columns
  and three rows with cells of one pixel. The maze is the one \<open>generateMaze\<close> builds for
  these dimensions, a corridor from the colony at \<open>(1, 1)\<close> to the food at \<open>(5, 1)\<close>.
  The random numbers and the ants are arguments.
\<close>

definition example_world :: "(nat \<Rightarrow> real) \<Rightarrow> ant list \<Rightarrow> simulationConfig" where
  "example_world r as =
     \<lparr>NUM_ANTS = 600, ANT_SPEED = 1, EVAPORATION_RATE = 0.005,
      DEPOSITION_RATE_EXPLORE = 15, DEPOSITION_RATE_RETURN = 15, PHEROMONE_MAX = 255,
      PHEROMONE_DURATION = 5000, SENSE_RADIUS = 1.1, GOAL_SENSE_RADIUS = 2,
      SENSE_ANGLE = pi / 2.5, TURN_ANGLE = pi / 6, FOLLOW_STRENGTH_WEIGHT = 5,
      RANDOM_TURN_CHANCE = 0.1, FOOD_DETECTION_RADIUS = 1, COLONY_DETECTION_RADIUS = 1,
      ANT_HISTORY_LENGTH = 20, GRID_COLS = 7, GRID_ROWS = 3, CELL_SIZE = 1,
      maze = [[Wall, Wall, Wall], [Wall, Path, Wall], [Wall, Path, Wall], [Wall, Path, Wall],
              [Wall, Path, Wall], [Wall, Path, Wall], [Wall, Wall, Wall]],
      explorePheromones = createGrid 7 3 0, returnPheromones = createGrid 7 3 0,
      ants = as, colonyPos = (1, 1), foodPos = (5, 1), foodFoundCount = 0,
      lastAntSpawnTime = 0, SPAWN_INTERVAL = 100, rand = r, rand_used = 0\<rparr>"

text \<open>
  The same state with a given evaporation rate and the value \<open>100\<close> in cell \<open>(3, 1)\<close>
  of the explore grid.
\<close>

definition example_trail :: "real \<Rightarrow> simulationConfig" where
  "example_trail evapRate =
     (example_world (\<lambda>_. 0) [])
       \<lparr>EVAPORATION_RATE := evapRate, explorePheromones := cell_set (createGrid 7 3 0) 3 1 100\<rparr>"

text \<open>An ant as the constructor makes it for the cell \<open>(gridX, 1)\<close>, heading east.\<close>

definition example_ant :: "int \<Rightarrow> ant" where
  "example_ant gridX =
     \<lparr>pos = (real_of_int gridX + 0.5, 1.5), vel = (1, 0), state = Searching,
      gridPos = (gridX, 1), history = [], charge = 5000\<rparr>"

text \<open>
  Two ants in the cell \<open>(3, 1)\<close>, the first heading east and the second heading south,
  and random numbers that are \<open>0.5\<close> but for the second, which is \<open>0\<close>.
\<close>

definition example_draws :: "nat \<Rightarrow> real" where
  "example_draws k = (if k = 1 then 0 else 0.5)"

definition example_ants :: "ant list" where
  "example_ants = [example_ant 3, (example_ant 3)\<lparr>vel := (0, 1)\<rparr>]"

text \<open>
  Updating the ants of given indices one after the other, each with its whole update, as
  the specification describes a tick. \<open>update_at\<close> is the body of the loop of
  \<^verbatim>\<open>updateAndDrawAnts\<close> for one index.
\<close>

definition update_at :: "nat \<Rightarrow> simulationConfig \<Rightarrow> simulationConfig option" where
  "update_at i s =
     (case update s (ants s ! i) of
        None \<Rightarrow> None
      | Some (a, s') \<Rightarrow> Some (s'\<lparr>ants := (ants s')[i := a]\<rparr>))"

fun update_in_order :: "nat list \<Rightarrow> simulationConfig \<Rightarrow> simulationConfig option" where
  "update_in_order [] s = Some s"
| "update_in_order (i # rest) s =
     (case update_at i s of None \<Rightarrow> None | Some s' \<Rightarrow> update_in_order rest s')"

section \<open>Evaporation\<close>

subsection \<open>The loops of the evaporation as a map over the grids\<close>

lemma fold_update_length:
  "length (fold (\<lambda>j xs. xs[j := h j (xs ! j)]) js xs) = length xs"
  by (induction js arbitrary: xs) auto

lemma fold_update_nth:
  "(fold (\<lambda>j xs. xs[j := h j (xs ! j)]) [0..<n] xs) ! k =
     (if k < n \<and> k < length xs then h k (xs ! k) else xs ! k)"
proof (induction n)
  case 0
  then show ?case by simp
next
  case (Suc n)
  let ?ys = "fold (\<lambda>j xs. xs[j := h j (xs ! j)]) [0..<n] xs"
  have len: "length ?ys = length xs" by (rule fold_update_length)
  show ?case
  proof (cases "n < length xs")
    case True
    then show ?thesis using Suc len by (cases "k = n") (simp_all add: nth_list_update)
  next
    case False
    then have "?ys[n := h n (?ys ! n)] = ?ys" using len by (simp add: not_less list_update_beyond)
    then show ?thesis using Suc False by simp
  qed
qed

lemma cell_set_outside:
  "\<not> (nat i < length g \<and> nat j < length (g ! nat i)) \<Longrightarrow> cell_set g i j v = g"
proof (cases "nat i < length g")
  case True
  assume "\<not> (nat i < length g \<and> nat j < length (g ! nat i))"
  with True have "(g ! nat i)[nat j := v] = g ! nat i" by (simp add: not_less list_update_beyond)
  then show ?thesis by (simp add: cell_set_def)
next
  case False
  then show ?thesis by (simp add: cell_set_def not_less list_update_beyond)
qed

lemma cell_set_same:
  "cell_set (cell_set g i j v) i j w = cell_set g i j w"
  by (cases "nat i < length g") (simp_all add: cell_set_def not_less list_update_beyond)

lemma cell_at_set:
  "nat i < length g \<Longrightarrow> nat j < length (g ! nat i) \<Longrightarrow> cell_at (cell_set g i j v) i j = v"
  by (simp add: cell_set_def cell_at_def)

lemma evaporate_body_touch:
  "evaporate_body rate (int i) (int j) (e, r) =
     (touch (evaporate_cell rate) i j e, touch (evaporate_cell rate) i j r)"
proof -
  have one: "(let g1 = cell_set g (int i) (int j) (cell_at g (int i) (int j) * (1.0 - rate))
              in if cell_at g1 (int i) (int j) < 0.01 then cell_set g1 (int i) (int j) 0 else g1)
             = touch (evaporate_cell rate) i j g" for g :: "real grid"
  proof (cases "i < length g \<and> j < length (g ! i)")
    case True
    then show ?thesis
      by (simp add: Let_def cell_at_set cell_set_same evaporate_cell_def touch_def)
         (simp add: cell_set_def cell_at_def)
  next
    case False
    then have out: "cell_set g (int i) (int j) v = g" for v
      by (intro cell_set_outside) simp
    have "touch (evaporate_cell rate) i j g = cell_set g (int i) (int j) (evaporate_cell rate (g ! i ! j))"
      by (simp add: touch_def cell_set_def)
    then have "touch (evaporate_cell rate) i j g = g" using out by simp
    then show ?thesis using out by (simp add: Let_def)
  qed
  show ?thesis
    unfolding evaporate_body_def using one[of e] one[of r]
    by (simp add: Let_def)
qed


lemma fold_pair_split:
  "fold (\<lambda>j. evaporate_body rate (int i) (int j)) js (e, r) =
     (fold (touch (evaporate_cell rate) i) js e, fold (touch (evaporate_cell rate) i) js r)"
  by (induction js arbitrary: e r) (simp_all add: evaporate_body_touch)

lemma fold_touch_column:
  "fold (touch f i) js g = g[i := fold (\<lambda>j xs. xs[j := f (xs ! j)]) js (g ! i)]"
proof (cases "i < length g")
  case True
  then show ?thesis
    by (induction js arbitrary: g) (simp_all add: touch_def)
next
  case False
  then have "fold (touch f i) js g = g"
    by (induction js) (simp_all add: touch_def not_less list_update_beyond)
  with False show ?thesis by (simp add: not_less list_update_beyond)
qed

lemma fold_update_map:
  "length xs = n \<Longrightarrow> fold (\<lambda>j xs. xs[j := h j (xs ! j)]) [0..<n] xs = map (\<lambda>j. h j (xs ! j)) [0..<n]"
  by (rule nth_equalityI) (simp_all add: fold_update_length fold_update_nth)

lemma evaporate_grid_map:
  assumes "grid_shape cols rows g"
  shows "fold (\<lambda>i. fold (touch f i) [0..<nat rows]) [0..<nat cols] g = map (map f) g"
proof -
  from assms have len: "length g = nat cols" and rows: "\<And>i. i < length g \<Longrightarrow> length (g ! i) = nat rows"
    by (auto simp: grid_shape_def list_all_length)
  let ?row = "\<lambda>xs. fold (\<lambda>j xs. xs[j := f (xs ! j)]) [0..<nat rows] xs"
  have "fold (\<lambda>i. fold (touch f i) [0..<nat rows]) [0..<nat cols] g
        = fold (\<lambda>i g. g[i := ?row (g ! i)]) [0..<nat cols] g"
  proof -
    have "fold (touch f i) [0..<nat rows] = (\<lambda>g. g[i := ?row (g ! i)])" for i
      by (rule ext) (rule fold_touch_column)
    then show ?thesis by simp
  qed
  also have "\<dots> = map (\<lambda>i. ?row (g ! i)) [0..<nat cols]"
    using len by (rule fold_update_map[where h = "\<lambda>i. ?row"])
  also have "\<dots> = map (map f) g"
  proof (rule nth_equalityI)
    show "length (map (\<lambda>i. ?row (g ! i)) [0..<nat cols]) = length (map (map f) g)"
      using len by simp
  next
    fix i assume "i < length (map (\<lambda>i. ?row (g ! i)) [0..<nat cols])"
    then have i: "i < length g" using len by simp
    have "?row (g ! i) = map (\<lambda>j. f (g ! i ! j)) [0..<nat rows]"
      using rows[OF i] by (rule fold_update_map)
    also have "\<dots> = map f (g ! i)"
      using rows[OF i] by (intro nth_equalityI) simp_all
    finally show "map (\<lambda>i. ?row (g ! i)) [0..<nat cols] ! i = map (map f) g ! i"
      using i len by simp
  qed
  finally show ?thesis .
qed

lemma evaporate_grids_map:
  assumes "grid_shape cols rows e" and "grid_shape cols rows r"
  shows "evaporate_grids cols rows rate (e, r) =
           (map (map (evaporate_cell rate)) e, map (map (evaporate_cell rate)) r)"
proof -
  have split: "fold (\<lambda>i. fold (\<lambda>j. evaporate_body rate (int i) (int j)) js) is (e, r) =
          (fold (\<lambda>i. fold (touch (evaporate_cell rate) i) js) is e,
           fold (\<lambda>i. fold (touch (evaporate_cell rate) i) js) is r)" for "is" js e r
    by (induction "is" arbitrary: e r) (simp_all add: fold_pair_split)
  show ?thesis
    unfolding evaporate_grids_def split
    by (simp add: evaporate_grid_map[OF assms(1)] evaporate_grid_map[OF assms(2)])
qed

lemma grid_shape_createGrid:
  "0 \<le> cols \<Longrightarrow> 0 \<le> rows \<Longrightarrow> grid_shape cols rows (createGrid cols rows d)"
  by (simp add: grid_shape_def createGrid_def list_all_iff)

lemma example_world_shape: "pheromone_shape (example_world r as)"
  by (simp add: pheromone_shape_def example_world_def grid_shape_createGrid)

lemma grid_shape_map: "grid_shape cols rows g \<Longrightarrow> grid_shape cols rows (map (map f) g)"
  by (simp add: grid_shape_def list_all_iff)

lemma cell_at_map:
  "grid_shape cols rows g \<Longrightarrow> isValidGridPos cols rows x y \<Longrightarrow>
     cell_at (map (map f) g) x y = f (cell_at g x y)"
  by (auto simp: grid_shape_def isValidGridPos_def cell_at_def list_all_length)

lemma updatePheromones_map:
  "pheromone_shape s \<Longrightarrow>
     updatePheromones s =
       s\<lparr>explorePheromones := map (map (evaporate_cell (EVAPORATION_RATE s))) (explorePheromones s),
         returnPheromones := map (map (evaporate_cell (EVAPORATION_RATE s))) (returnPheromones s)\<rparr>"
  by (simp add: updatePheromones_def pheromone_shape_def evaporate_grids_map)

lemma evaporate_cell_bounds:
  assumes "0 \<le> rate" "rate \<le> 1" "0 \<le> v"
  shows "0 \<le> evaporate_cell rate v" and "evaporate_cell rate v \<le> v"
proof -
  have "0 \<le> v * (1 - rate)" using assms by simp
  then show "0 \<le> evaporate_cell rate v" by (simp add: evaporate_cell_def)
  have "v * (1 - rate) \<le> v * 1" using assms by (intro mult_left_mono) simp_all
  then show "evaporate_cell rate v \<le> v" using assms by (simp add: evaporate_cell_def)
qed

lemma snap_touch:
  "(let g1 = cell_set g (int i) (int j) (h (cell_at g (int i) (int j)))
    in if cell_at g1 (int i) (int j) < t then cell_set g1 (int i) (int j) 0 else g1)
   = touch (\<lambda>v. if h v < t then 0 else h v) i j g"
proof (cases "i < length g \<and> j < length (g ! i)")
  case True
  then show ?thesis
    by (simp add: Let_def cell_at_set cell_set_same touch_def)
       (simp add: cell_set_def cell_at_def)
next
  case False
  then have out: "cell_set g (int i) (int j) v = g" for v
    by (intro cell_set_outside) simp
  have "touch f i j g = cell_set g (int i) (int j) (f (g ! i ! j))" for f
    by (simp add: touch_def cell_set_def)
  then have "touch f i j g = g" for f using out by simp
  then show ?thesis using out by (simp add: Let_def)
qed

lemma evaporate_body_binary64_touch:
  "evaporate_body_binary64 rate (int i) (int j) (e, r) =
     (touch (evaporate_cell_binary64 rate) i j e, touch (evaporate_cell_binary64 rate) i j r)"
proof -
  have f: "evaporate_cell_binary64 rate =
             (\<lambda>v. if binary64 (v * binary64 (1 - rate)) < binary64 0.01 then 0
                  else binary64 (v * binary64 (1 - rate)))"
    by (rule ext) (simp add: evaporate_cell_binary64_def)
  show ?thesis
    unfolding evaporate_body_binary64_def f
    using snap_touch[of e i j "\<lambda>v. binary64 (v * binary64 (1 - rate))" "binary64 0.01"]
          snap_touch[of r i j "\<lambda>v. binary64 (v * binary64 (1 - rate))" "binary64 0.01"]
    by (simp add: Let_def)
qed

lemma evaporate_grids_binary64_map:
  assumes "grid_shape cols rows e" and "grid_shape cols rows r"
  shows "evaporate_grids_binary64 cols rows rate (e, r) =
           (map (map (evaporate_cell_binary64 rate)) e, map (map (evaporate_cell_binary64 rate)) r)"
proof -
  have row: "fold (\<lambda>j. evaporate_body_binary64 rate (int i) (int j)) js (e, r) =
     (fold (touch (evaporate_cell_binary64 rate) i) js e,
      fold (touch (evaporate_cell_binary64 rate) i) js r)" for i js e r
    by (induction js arbitrary: e r) (simp_all add: evaporate_body_binary64_touch)
  have split: "fold (\<lambda>i. fold (\<lambda>j. evaporate_body_binary64 rate (int i) (int j)) js) is (e, r) =
          (fold (\<lambda>i. fold (touch (evaporate_cell_binary64 rate) i) js) is e,
           fold (\<lambda>i. fold (touch (evaporate_cell_binary64 rate) i) js) is r)" for "is" js e r
    by (induction "is" arbitrary: e r) (simp_all add: row)
  show ?thesis
    unfolding evaporate_grids_binary64_def split
    by (simp add: evaporate_grid_map[OF assms(1)] evaporate_grid_map[OF assms(2)])
qed

lemma updatePheromones_binary64_map:
  "pheromone_shape s \<Longrightarrow>
     updatePheromones_binary64 s =
       s\<lparr>explorePheromones := map (map (evaporate_cell_binary64 (EVAPORATION_RATE s))) (explorePheromones s),
         returnPheromones := map (map (evaporate_cell_binary64 (EVAPORATION_RATE s))) (returnPheromones s)\<rparr>"
  by (simp add: updatePheromones_binary64_def pheromone_shape_def evaporate_grids_binary64_map)

lemma updatePheromones_binary64_iter:
  assumes "pheromone_shape s"
  shows "(updatePheromones_binary64 ^^ n) s =
       s\<lparr>explorePheromones := map (map (evaporate_cell_binary64 (EVAPORATION_RATE s) ^^ n)) (explorePheromones s),
         returnPheromones := map (map (evaporate_cell_binary64 (EVAPORATION_RATE s) ^^ n)) (returnPheromones s)\<rparr>"
proof (induction n)
  case 0
  have "map (map (\<lambda>x. x)) g = g" for g :: "real grid"
    by (simp add: map_idI)
  then show ?case by (simp add: id_def)
next
  case (Suc n)
  let ?s = "(updatePheromones_binary64 ^^ n) s"
  have shape: "pheromone_shape ?s"
    using assms unfolding Suc by (simp add: pheromone_shape_def grid_shape_map)
  show ?case
    by (simp add: updatePheromones_binary64_map[OF shape]) (simp add: Suc comp_def)
qed

subsection \<open>Rounding to the nearest double\<close>

lemma round_ties_even_upper: "of_int (round_ties_even q) \<le> q + 1 / 2"
  unfolding round_ties_even_def Let_def by (auto; linarith)

lemma round_ties_even_lower: "q - 1 / 2 \<le> of_int (round_ties_even q)"
  unfolding round_ties_even_def Let_def by (auto; linarith)

lemma round_ties_even_int: "round_ties_even (of_int k) = k"
  by (simp add: round_ties_even_def)

lemma round_ties_even_nonneg: "0 \<le> q \<Longrightarrow> 0 \<le> round_ties_even q"
  unfolding round_ties_even_def Let_def by (auto; linarith)

lemma round_ties_even_less:
  assumes "q < of_int k + 1 / 2" shows "round_ties_even q \<le> k"
proof -
  have "of_int (round_ties_even q) < (of_int k + 1 :: real)"
    using round_ties_even_upper[of q] assms by linarith
  then have "round_ties_even q < k + 1" by linarith
  then show ?thesis by simp
qed

lemma round_ties_even_le:
  assumes "q \<le> of_int k"
  shows "of_int (round_ties_even q) \<le> (of_int k :: real)"
proof -
  have "q < of_int k + 1 / 2" using assms by simp
  then have "round_ties_even q \<le> k" by (rule round_ties_even_less)
  then show ?thesis by (simp only: of_int_le_iff)
qed

lemma ulp_pos: "0 < (2::real) powi k"
  by (rule zero_less_power_int) simp

lemma power_int_two_less: "(2::real) powi a < 2 powi b \<Longrightarrow> a < b"
proof (rule ccontr)
  assume lt: "(2::real) powi a < 2 powi b" and "\<not> a < b"
  then have "b \<le> a" by simp
  then have "(2::real) powi b \<le> 2 powi a" by (rule power_int_increasing) simp
  with lt show False by simp
qed

lemma exponent_search_lower: "- 1022 \<le> exponent_search n x"
  by (induction n) simp_all

lemma exponent_search_below:
  "exponent_search n x = - 1022 \<or> 2 powi (exponent_search n x) \<le> x"
  by (induction n) simp_all

lemma exponent_search_above:
  "x < 2 powi (int n - 1021) \<Longrightarrow> x < 2 powi (exponent_search n x + 1)"
proof (induction n)
  case 0
  then show ?case by simp
next
  case (Suc n)
  show ?case
  proof (cases "2 powi (int n - 1021) \<le> x")
    case True
    then show ?thesis using Suc.prems by (simp add: algebra_simps)
  next
    case False
    then show ?thesis using Suc.IH by simp
  qed
qed

lemma exponent64_eq:
  assumes "- 1022 \<le> e" "e \<le> 1023" "2 powi e \<le> \<bar>x\<bar>" "\<bar>x\<bar> < 2 powi (e + 1)"
  shows "exponent64 x = e"
proof -
  let ?r = "exponent64 x"
  have "(2::real) powi (e + 1) \<le> 2 powi 1024"
    using assms(2) by (intro power_int_increasing) simp_all
  then have "\<bar>x\<bar> < 2 powi (int 2045 - 1021)" using assms(4) by simp
  then have up: "\<bar>x\<bar> < 2 powi (?r + 1)"
    unfolding exponent64_def by (rule exponent_search_above)
  have "(2::real) powi e < 2 powi (?r + 1)" using assms(3) up by linarith
  then have "e < ?r + 1"
    by (rule power_int_two_less)
  moreover have "?r \<le> e"
  proof (cases "?r = - 1022")
    case True
    then show ?thesis using assms(1) by simp
  next
    case False
    then have "2 powi ?r \<le> \<bar>x\<bar>"
      using exponent_search_below[of 2045 "\<bar>x\<bar>"] by (simp add: exponent64_def)
    then have "(2::real) powi ?r < 2 powi (e + 1)" using assms(4) by linarith
    then have "?r < e + 1" by (rule power_int_two_less)
    then show ?thesis by simp
  qed
  ultimately show ?thesis by simp
qed

lemma exponent64_subnormal:
  assumes "\<bar>x\<bar> < 2 powi (- 1022)"
  shows "exponent64 x = - 1022"
proof -
  have "exponent_search n \<bar>x\<bar> = - 1022" for n
  proof (induction n)
    case 0
    then show ?case by simp
  next
    case (Suc n)
    have "(2::real) powi (- 1022) \<le> 2 powi (int n - 1021)"
      by (intro power_int_increasing) simp_all
    then have "\<not> 2 powi (int n - 1021) \<le> \<bar>x\<bar>" using assms by linarith
    then show ?case using Suc by simp
  qed
  then show ?thesis by (simp add: exponent64_def)
qed

lemma binary64_zero: "binary64 0 = 0"
  by (simp add: binary64_def round_ties_even_def)

lemma binary64_nonneg: "0 \<le> x \<Longrightarrow> 0 \<le> binary64 x"
proof -
  assume x: "0 \<le> x"
  let ?u = "(2::real) powi (exponent64 x - 52)"
  have "0 \<le> x / ?u" using x ulp_pos[of "exponent64 x - 52"] by simp
  then have "0 \<le> round_ties_even (x / ?u)" by (rule round_ties_even_nonneg)
  then show ?thesis
    unfolding binary64_def Let_def using ulp_pos[of "exponent64 x - 52"] by simp
qed

lemma binary64_upper: "binary64 x \<le> x + 2 powi (exponent64 x - 52) / 2"
proof -
  let ?u = "(2::real) powi (exponent64 x - 52)"
  have u: "0 < ?u" by (rule ulp_pos)
  have "of_int (round_ties_even (x / ?u)) * ?u \<le> (x / ?u + 1 / 2) * ?u"
    using round_ties_even_upper[of "x / ?u"] u by (intro mult_right_mono) simp_all
  also have "\<dots> = x + ?u / 2" using u by (simp add: field_simps)
  finally show ?thesis by (simp add: binary64_def Let_def)
qed

lemma binary64_normal_upper:
  assumes "2 powi (- 1022) \<le> x"
  shows "binary64 x \<le> x * (1 + 1 / 2 ^ 53)"
proof -
  let ?e = "exponent64 x"
  have x: "0 < x" using assms ulp_pos[of "- 1022"] by linarith
  have "2 powi ?e \<le> x"
    using exponent_search_below[of 2045 "\<bar>x\<bar>"] assms x by (auto simp: exponent64_def)
  moreover have "(2::real) powi (?e - 52) = 2 powi ?e / 2 ^ 52"
    by (simp add: power_int_diff)
  ultimately have "2 powi (?e - 52) / 2 \<le> x / 2 ^ 53" by (simp add: field_simps)
  then show ?thesis using binary64_upper[of x] by (simp add: algebra_simps)
qed

lemma binary64_subnormal_upper:
  assumes "0 \<le> x" "x < 2 powi (- 1022)"
  shows "binary64 x \<le> 2 powi (- 1022)"
proof -
  have e: "exponent64 x = - 1022" using assms by (intro exponent64_subnormal) simp
  let ?u = "(2::real) powi (- 1074)"
  have u: "0 < ?u" by (rule ulp_pos)
  have split: "(2::real) powi (- 1022) = 2 ^ 52 * ?u"
    using power_int_add[of "2::real" 52 "- 1074"] by simp
  have "x / ?u < 2 ^ 52" using assms(2) u unfolding split by (simp add: field_simps)
  then have "x / ?u \<le> of_int (2 ^ 52)" by simp
  then have "of_int (round_ties_even (x / ?u)) \<le> (of_int (2 ^ 52) :: real)"
    by (rule round_ties_even_le)
  then have "of_int (round_ties_even (x / ?u)) * ?u \<le> of_int (2 ^ 52) * ?u"
    using u by (intro mult_right_mono) simp_all
  then show ?thesis unfolding split by (simp add: binary64_def Let_def e)
qed

lemma exponent64_lower: "- 1022 \<le> exponent64 x"
  by (simp add: exponent64_def exponent_search_lower)

lemma exponent64_below: "exponent64 x = - 1022 \<or> 2 powi (exponent64 x) \<le> \<bar>x\<bar>"
  unfolding exponent64_def by (rule exponent_search_below)

lemma exponent64_above:
  assumes "\<bar>x\<bar> < 1"
  shows "\<bar>x\<bar> < 2 powi (exponent64 x + 1)"
proof -
  have "(2::real) powi 0 \<le> 2 powi (int 2045 - 1021)"
    by (rule power_int_increasing) simp_all
  then have "\<bar>x\<bar> < 2 powi (int 2045 - 1021)" using assms by simp
  then show ?thesis unfolding exponent64_def by (rule exponent_search_above)
qed



lemma binary64_below_one:
  assumes "0 \<le> y" "y < 1 - 1 / 2 ^ 54"
  shows "binary64 y \<le> 1 - 1 / 2 ^ 53"
proof -
  let ?e = "exponent64 y"
  let ?u = "(2::real) powi (?e - 52)"
  have u: "0 < ?u" by (rule ulp_pos)
  have y1: "\<bar>y\<bar> < 1" using assms by simp
  have up: "\<bar>y\<bar> < 2 powi (?e + 1)" using y1 by (rule exponent64_above)
  have neg: "?e \<le> - 1"
  proof (cases "?e = - 1022")
    case True
    then show ?thesis by simp
  next
    case False
    then have "2 powi ?e \<le> \<bar>y\<bar>" using exponent64_below[of y] by simp
    then have "(2::real) powi ?e < 2 powi 0" using y1 by simp
    then have "?e < 0" by (rule power_int_two_less)
    then show ?thesis by simp
  qed
  have b: "binary64 y = of_int (round_ties_even (y / ?u)) * ?u"
    by (simp add: binary64_def Let_def)
  show ?thesis
  proof (cases "?e = - 1")
    case True
    have uv: "?u = 1 / 2 ^ 53" by (simp add: True)
    have "y / ?u < of_int (2 ^ 53 - 1) + 1 / 2"
      using assms(2) unfolding uv by simp
    then have "round_ties_even (y / ?u) \<le> 2 ^ 53 - 1" by (rule round_ties_even_less)
    then have "of_int (round_ties_even (y / ?u)) \<le> (of_int (2 ^ 53 - 1) :: real)"
      by (simp only: of_int_le_iff)
    then have "of_int (round_ties_even (y / ?u)) * ?u \<le> of_int (2 ^ 53 - 1) * ?u"
      using u by (intro mult_right_mono) simp_all
    also have "\<dots> = 1 - 1 / 2 ^ 53" unfolding uv by simp
    finally show ?thesis unfolding b .
  next
    case False
    then have e2: "?e + 1 \<le> - 1" using neg by simp
    have split: "(2::real) powi (?e + 1) = 2 powi 53 * ?u"
      using power_int_add[of "2::real" 53 "?e - 52"] by (simp add: algebra_simps)
    have "y < 2 powi 53 * ?u" using up assms(1) unfolding split by simp
    then have "y / ?u < 2 powi 53" using u by (simp add: field_simps)
    then have "y / ?u \<le> of_int (2 ^ 53)" by simp
    then have "of_int (round_ties_even (y / ?u)) \<le> (of_int (2 ^ 53) :: real)"
      by (rule round_ties_even_le)
    then have "of_int (round_ties_even (y / ?u)) * ?u \<le> of_int (2 ^ 53) * ?u"
      using u by (intro mult_right_mono) simp_all
    also have "\<dots> = 2 powi (?e + 1)" unfolding split by simp
    also have "\<dots> \<le> 2 powi (- 1)" using e2 by (intro power_int_increasing) simp_all
    also have "\<dots> \<le> 1 - 1 / 2 ^ 53" by simp
    finally show ?thesis unfolding b .
  qed
qed

lemma binary64_one_minus_tiny:
  assumes "0 \<le> r" "r \<le> 1 / 2 ^ 54"
  shows "binary64 (1 - r) = 1"
proof (cases "r = 0")
  case True
  have "exponent64 1 = 0" by (rule exponent64_eq) simp_all
  then show ?thesis using True by (simp add: binary64_def round_ties_even_def)
next
  case False
  then have r: "0 < r" using assms by simp
  have e: "exponent64 (1 - r) = - 1"
  proof (rule exponent64_eq)
    show "2 powi (- 1) \<le> \<bar>1 - r\<bar>" using assms by simp
    show "\<bar>1 - r\<bar> < 2 powi (- 1 + 1)" using assms r by simp
  qed simp_all
  let ?q = "(1 - r) * 2 ^ 53"
  have fl: "\<lfloor>?q\<rfloor> = 2 ^ 53 - 1"
  proof (rule floor_unique)
    show "of_int (2 ^ 53 - 1) \<le> ?q" using assms by simp
    show "?q < of_int (2 ^ 53 - 1) + 1" using r by simp
  qed
  have half: "1 / 2 \<le> ?q - of_int \<lfloor>?q\<rfloor>" unfolding fl using assms by simp
  have odd: "odd (2 ^ 53 - 1 :: int)" by simp
  have "round_ties_even ?q = 2 ^ 53"
    using half odd unfolding round_ties_even_def Let_def fl by (auto simp: not_less)
  then show ?thesis by (simp add: binary64_def Let_def e)
qed

lemma round_ties_even_nearest:
  assumes "of_int k - 1 / 2 < q" "q < of_int k + 1 / 2"
  shows "round_ties_even q = k"
proof -
  have "of_int (round_ties_even q) < (of_int k + 1 :: real)"
    using round_ties_even_upper[of q] assms by linarith
  moreover have "(of_int k - 1 :: real) < of_int (round_ties_even q)"
    using round_ties_even_lower[of q] assms by linarith
  ultimately have "round_ties_even q < k + 1" "k - 1 < round_ties_even q" by linarith+
  then show ?thesis by simp
qed

lemma binary64_in_binade:
  assumes "- 1022 \<le> e" "e \<le> 1023" "2 powi e \<le> \<bar>x\<bar>" "\<bar>x\<bar> < 2 powi (e + 1)"
  shows "binary64 x = of_int (round_ties_even (x / 2 powi (e - 52))) * 2 powi (e - 52)"
  by (simp add: binary64_def Let_def exponent64_eq[OF assms])

lemma binary64_threshold: "binary64 0.01 = 5764607523034235 / 2 ^ 59"
proof -
  have "binary64 0.01 = of_int (round_ties_even (0.01 / 2 powi (- 7 - 52))) * 2 powi (- 7 - 52)"
    by (rule binary64_in_binade) simp_all
  moreover have "round_ties_even (0.01 / 2 powi (- 7 - 52)) = 5764607523034235"
    by (rule round_ties_even_nearest) simp_all
  ultimately show ?thesis by simp
qed

lemma binary64_hundred: "binary64 100 = 100"
proof -
  have "binary64 100 = of_int (round_ties_even (100 / 2 powi (6 - 52))) * 2 powi (6 - 52)"
    by (rule binary64_in_binade) simp_all
  moreover have "round_ties_even (100 / 2 powi (6 - 52)) = 7036874417766400"
    by (rule round_ties_even_nearest) simp_all
  ultimately show ?thesis by simp
qed

subsection \<open>Decay of one cell\<close>

text \<open>
  For a rate above \<open>2\<^sup>-\<^sup>5\<^sup>4\<close> the rounded factor is at most \<open>1 - 2\<^sup>-\<^sup>5\<^sup>3\<close>, and
  a rounded product that is not set to \<open>0\<close> is at most \<open>1 + 2\<^sup>-\<^sup>5\<^sup>3\<close> times the
  exact one: every evaporation takes the value of a cell down by the factor
  \<open>1 - 2\<^sup>-\<^sup>1\<^sup>0\<^sup>6\<close> at least. For a rate of at most \<open>2\<^sup>-\<^sup>5\<^sup>4\<close> the rounded factor
  is \<open>1\<close>.
\<close>

lemma threshold_normal: "2 powi (- 1022) < binary64 0.01"
proof -
  have "(2::real) powi (- 1022) \<le> 2 powi (- 7)"
    by (rule power_int_increasing) simp_all
  also have "\<dots> < binary64 0.01" unfolding binary64_threshold by simp
  finally show ?thesis .
qed

lemma threshold_pos: "0 < binary64 0.01"
  unfolding binary64_threshold by simp

lemma evaporate_cell_binary64_step:
  assumes "1 / 2 ^ 54 < rate" "rate \<le> 1" "0 \<le> v"
  shows "0 \<le> evaporate_cell_binary64 rate v"
    and "evaporate_cell_binary64 rate v \<le> v * (1 - 1 / 2 ^ 106)"
proof -
  let ?f = "binary64 (1 - rate)"
  let ?w = "binary64 (v * ?f)"
  have f0: "0 \<le> ?f" using assms by (intro binary64_nonneg) simp
  have f1: "?f \<le> 1 - 1 / 2 ^ 53" using assms by (intro binary64_below_one) simp_all
  have x0: "0 \<le> v * ?f" using assms(3) f0 by simp
  have w0: "0 \<le> ?w" using x0 by (rule binary64_nonneg)
  show "0 \<le> evaporate_cell_binary64 rate v"
    using w0 by (simp add: evaporate_cell_binary64_def)
  have c: "0 \<le> v * (1 - 1 / 2 ^ 106)" using assms(3) by simp
  show "evaporate_cell_binary64 rate v \<le> v * (1 - 1 / 2 ^ 106)"
  proof (cases "?w < binary64 0.01")
    case True
    then show ?thesis using c by (simp add: evaporate_cell_binary64_def)
  next
    case False
    have normal: "2 powi (- 1022) \<le> v * ?f"
    proof (rule ccontr)
      assume "\<not> 2 powi (- 1022) \<le> v * ?f"
      then have "v * ?f < 2 powi (- 1022)" by simp
      then have "?w \<le> 2 powi (- 1022)" using x0 by (intro binary64_subnormal_upper)
      then show False using False threshold_normal by linarith
    qed
    have "?w \<le> v * ?f * (1 + 1 / 2 ^ 53)" using normal by (rule binary64_normal_upper)
    also have "\<dots> \<le> v * (1 - 1 / 2 ^ 53) * (1 + 1 / 2 ^ 53)"
      using f1 assms(3) by (intro mult_right_mono mult_left_mono) simp_all
    also have "\<dots> = v * (1 - 1 / 2 ^ 106)" by (simp add: algebra_simps)
    finally show ?thesis using False by (simp add: evaporate_cell_binary64_def)
  qed
qed

lemma evaporate_cell_binary64_snap:
  "evaporate_cell_binary64 rate v = 0 \<or> binary64 0.01 \<le> evaporate_cell_binary64 rate v"
  by (simp add: evaporate_cell_binary64_def)

lemma evaporate_cell_binary64_zero: "evaporate_cell_binary64 rate 0 = 0"
  using threshold_pos by (simp add: evaporate_cell_binary64_def binary64_zero)

lemma evaporate_binary64_iter_zero: "(evaporate_cell_binary64 rate ^^ n) 0 = 0"
  by (induction n) (simp_all add: evaporate_cell_binary64_zero)

lemma evaporate_binary64_iter_bounds:
  assumes "1 / 2 ^ 54 < rate" "rate \<le> 1" "0 \<le> v"
  shows "0 \<le> (evaporate_cell_binary64 rate ^^ n) v
       \<and> (evaporate_cell_binary64 rate ^^ n) v \<le> v * (1 - 1 / 2 ^ 106) ^ n"
proof (induction n)
  case 0
  then show ?case using assms by simp
next
  case (Suc n)
  let ?w = "(evaporate_cell_binary64 rate ^^ n) v"
  from Suc have w: "0 \<le> ?w" "?w \<le> v * (1 - 1 / 2 ^ 106) ^ n" by simp_all
  have "evaporate_cell_binary64 rate ?w \<le> ?w * (1 - 1 / 2 ^ 106)"
    using assms(1,2) w(1) by (rule evaporate_cell_binary64_step(2))
  also have "\<dots> \<le> (v * (1 - 1 / 2 ^ 106) ^ n) * (1 - 1 / 2 ^ 106)"
    using w(2) by (intro mult_right_mono) simp_all
  finally have "evaporate_cell_binary64 rate ?w \<le> v * (1 - 1 / 2 ^ 106) ^ Suc n"
    by (simp add: mult_ac)
  moreover have "0 \<le> evaporate_cell_binary64 rate ?w"
    using assms(1,2) w(1) by (rule evaporate_cell_binary64_step(1))
  ultimately show ?case by simp
qed

lemma evaporate_binary64_iter_decreasing:
  assumes "1 / 2 ^ 54 < rate" "rate \<le> 1" "0 \<le> v"
  shows "(evaporate_cell_binary64 rate ^^ Suc n) v \<le> (evaporate_cell_binary64 rate ^^ n) v"
proof -
  let ?w = "(evaporate_cell_binary64 rate ^^ n) v"
  have w: "0 \<le> ?w" using evaporate_binary64_iter_bounds[OF assms, of n] by simp
  have "evaporate_cell_binary64 rate ?w \<le> ?w * (1 - 1 / 2 ^ 106)"
    using assms(1,2) w by (rule evaporate_cell_binary64_step(2))
  also have "\<dots> \<le> ?w * 1" using w by (intro mult_left_mono) simp_all
  finally show ?thesis by simp
qed

lemma evaporate_binary64_reaches_zero:
  assumes "1 / 2 ^ 54 < rate" "rate \<le> 1" "0 \<le> v"
  shows "\<exists>N. \<forall>n\<ge>N. (evaporate_cell_binary64 rate ^^ n) v = 0"
proof -
  let ?c = "1 - 1 / 2 ^ 106 :: real"
  let ?t = "binary64 0.01"
  have "0 < ?t / (v + 1)" using assms threshold_pos by simp
  moreover have "?c < 1" by simp
  moreover have "0 \<le> ?c" by simp
  ultimately obtain k where k: "?c ^ k < ?t / (v + 1)"
    using real_arch_pow_inv by blast
  let ?w = "(evaporate_cell_binary64 rate ^^ Suc k) v"
  have w: "0 \<le> ?w" "?w \<le> v * ?c ^ Suc k"
    using evaporate_binary64_iter_bounds[OF assms, of "Suc k"] by simp_all
  have "?c ^ Suc k \<le> ?c ^ k" by (intro power_decreasing) simp_all
  then have "v * ?c ^ Suc k \<le> v * ?c ^ k" using assms(3) by (intro mult_left_mono)
  also have "\<dots> \<le> v * (?t / (v + 1))"
    using k assms(3) by (intro mult_left_mono) simp_all
  also have "\<dots> < ?t" using assms(3) threshold_pos by (simp add: field_simps)
  finally have small: "?w < ?t" using w by linarith
  have zero: "?w = 0"
    using evaporate_cell_binary64_snap[of rate "(evaporate_cell_binary64 rate ^^ k) v"] small
    by simp
  have "(evaporate_cell_binary64 rate ^^ n) v = 0" if "Suc k \<le> n" for n
  proof -
    from that obtain m where "n = m + Suc k" by (metis le_add_diff_inverse2)
    then have "(evaporate_cell_binary64 rate ^^ n) v
                 = (evaporate_cell_binary64 rate ^^ m) ((evaporate_cell_binary64 rate ^^ Suc k) v)"
      by (simp only: funpow_add o_apply)
    then show ?thesis using zero by (simp only: evaporate_binary64_iter_zero)
  qed
  then show ?thesis by blast
qed

lemma evaporate_cell_binary64_stuck:
  assumes "0 \<le> rate" "rate \<le> 1 / 2 ^ 54"
  shows "(evaporate_cell_binary64 rate ^^ n) 100 = 100"
proof -
  have "evaporate_cell_binary64 rate 100 = 100"
    unfolding evaporate_cell_binary64_def binary64_one_minus_tiny[OF assms] binary64_threshold
    by (simp add: binary64_hundred)
  then show ?thesis by (induction n) simp_all
qed

lemma example_trail_fields:
  "EVAPORATION_RATE (example_trail rate) = rate"
  "PHEROMONE_MAX (example_trail rate) = 255"
  "GRID_COLS (example_trail rate) = 7"
  "GRID_ROWS (example_trail rate) = 3"
  "explorePheromones (example_trail rate) = cell_set (createGrid 7 3 0) 3 1 100"
  "returnPheromones (example_trail rate) = createGrid 7 3 0"
  by (simp_all add: example_trail_def example_world_def)

lemma example_trail_shape: "pheromone_shape (example_trail rate)"
  by (simp add: pheromone_shape_def example_trail_fields grid_shape_def createGrid_def cell_set_def
        list_all_iff set_list_update eval_nat_numeral)

lemma example_trail_cell:
  "cell_at (explorePheromones (example_trail rate)) 3 1 = 100"
  "cell_at (returnPheromones (example_trail rate)) 3 1 = 0"
  by (simp_all add: example_trail_fields createGrid_def cell_set_def cell_at_def eval_nat_numeral)

lemma example_trail_run:
  "cell_at (explorePheromones ((updatePheromones_binary64 ^^ n) (example_trail rate))) 3 1
     = (evaporate_cell_binary64 rate ^^ n) 100"
proof -
  have se: "grid_shape 7 3 (explorePheromones (example_trail rate))"
    using example_trail_shape[of rate] by (simp add: pheromone_shape_def example_trail_fields)
  have cell: "isValidGridPos 7 3 3 1" by (simp add: isValidGridPos_def)
  show ?thesis
    by (simp add: updatePheromones_binary64_iter[OF example_trail_shape] cell_at_map[OF se cell]
          example_trail_cell)
       (simp add: example_trail_fields)
qed

text \<open>
  The rate of the source, the double nearest to \<open>0.005\<close>, takes \<open>100\<close> to \<open>99.5\<close>.
\<close>

lemma binary64_rate: "binary64 0.005 = 5764607523034235 / 2 ^ 60"
proof -
  have "binary64 0.005 = of_int (round_ties_even (0.005 / 2 powi (- 8 - 52))) * 2 powi (- 8 - 52)"
    by (rule binary64_in_binade) simp_all
  moreover have "round_ties_even (0.005 / 2 powi (- 8 - 52)) = 5764607523034235"
    by (rule round_ties_even_nearest) simp_all
  ultimately show ?thesis by simp
qed

lemma first_step: "evaporate_cell_binary64 (binary64 0.005) 100 = 99.5"
proof -
  have f: "binary64 (1 - 5764607523034235 / 2 ^ 60) = 8962163258467287 / 2 ^ 53"
  proof -
    have "binary64 (1 - 5764607523034235 / 2 ^ 60)
            = of_int (round_ties_even ((1 - 5764607523034235 / 2 ^ 60) / 2 powi (- 1 - 52)))
                * 2 powi (- 1 - 52)"
      by (rule binary64_in_binade) simp_all
    moreover have "round_ties_even ((1 - 5764607523034235 / 2 ^ 60) / 2 powi (- 1 - 52))
                     = 8962163258467287"
      by (rule round_ties_even_nearest) simp_all
    ultimately show ?thesis by simp
  qed
  have w: "binary64 (100 * (8962163258467287 / 2 ^ 53)) = 99.5"
  proof -
    have "binary64 (100 * (8962163258467287 / 2 ^ 53))
            = of_int (round_ties_even (100 * (8962163258467287 / 2 ^ 53) / 2 powi (6 - 52))) * 2 powi (6 - 52)"
      by (rule binary64_in_binade) simp_all
    moreover have "round_ties_even (100 * (8962163258467287 / 2 ^ 53) / 2 powi (6 - 52)) = 7001690045677568"
      by (rule round_ties_even_nearest) simp_all
    ultimately show ?thesis by simp
  qed
  show ?thesis
    unfolding evaporate_cell_binary64_def binary64_rate f w binary64_threshold by simp
qed

subsection \<open>Decay of the grids\<close>

text \<open>
  Claim C8, as the code has it. Let the evaporation rate be above \<open>2\<^sup>-\<^sup>5\<^sup>4\<close> and at
  most one, and let a cell of the grids hold a non-negative value. Under repeated calls of
  \<open>updatePheromones\<close>, computed in double precision and with no deposit in between, the
  value of the cell never increases from one call to the next, and after finitely many
  calls it is exactly \<open>0\<close> and stays there. This holds in both grids. (An upper bound on
  the starting value is not needed.)
\<close>

theorem evaporation_decays_when_factor_rounds_below_one:
  assumes rate: "1 / 2 ^ 54 < EVAPORATION_RATE s" "EVAPORATION_RATE s \<le> 1"
    and shape: "pheromone_shape s"
    and cell: "isValidGridPos (GRID_COLS s) (GRID_ROWS s) x y"
    and explore: "0 \<le> cell_at (explorePheromones s) x y"
    and return: "0 \<le> cell_at (returnPheromones s) x y"
  shows "(\<forall>n. cell_at (explorePheromones ((updatePheromones_binary64 ^^ Suc n) s)) x y
               \<le> cell_at (explorePheromones ((updatePheromones_binary64 ^^ n) s)) x y)
       \<and> (\<exists>N. \<forall>n\<ge>N. cell_at (explorePheromones ((updatePheromones_binary64 ^^ n) s)) x y = 0)
       \<and> (\<forall>n. cell_at (returnPheromones ((updatePheromones_binary64 ^^ Suc n) s)) x y
               \<le> cell_at (returnPheromones ((updatePheromones_binary64 ^^ n) s)) x y)
       \<and> (\<exists>N. \<forall>n\<ge>N. cell_at (returnPheromones ((updatePheromones_binary64 ^^ n) s)) x y = 0)"
proof -
  from shape have se: "grid_shape (GRID_COLS s) (GRID_ROWS s) (explorePheromones s)"
    and sr: "grid_shape (GRID_COLS s) (GRID_ROWS s) (returnPheromones s)"
    by (simp_all add: pheromone_shape_def)
  have e: "cell_at (explorePheromones ((updatePheromones_binary64 ^^ n) s)) x y
             = (evaporate_cell_binary64 (EVAPORATION_RATE s) ^^ n) (cell_at (explorePheromones s) x y)" for n
    by (simp add: updatePheromones_binary64_iter[OF shape] cell_at_map[OF se cell])
  have r: "cell_at (returnPheromones ((updatePheromones_binary64 ^^ n) s)) x y
             = (evaporate_cell_binary64 (EVAPORATION_RATE s) ^^ n) (cell_at (returnPheromones s) x y)" for n
    by (simp add: updatePheromones_binary64_iter[OF shape] cell_at_map[OF sr cell])
  show ?thesis
    unfolding e r
    using evaporate_binary64_iter_decreasing[OF rate explore] evaporate_binary64_reaches_zero[OF rate explore]
          evaporate_binary64_iter_decreasing[OF rate return] evaporate_binary64_reaches_zero[OF rate return]
    by blast
qed

theorem evaporation_decays_when_factor_rounds_below_one_witness:
  "1 / 2 ^ 54 < EVAPORATION_RATE (example_trail (binary64 0.005))
   \<and> EVAPORATION_RATE (example_trail (binary64 0.005)) \<le> 1
   \<and> pheromone_shape (example_trail (binary64 0.005))
   \<and> isValidGridPos (GRID_COLS (example_trail (binary64 0.005)))
         (GRID_ROWS (example_trail (binary64 0.005))) 3 1
   \<and> cell_at (explorePheromones (example_trail (binary64 0.005))) 3 1 = 100
   \<and> cell_at (returnPheromones (example_trail (binary64 0.005))) 3 1 = 0
   \<and> cell_at (explorePheromones (updatePheromones_binary64 (example_trail (binary64 0.005)))) 3 1 = 99.5
   \<and> (\<exists>N. \<forall>n\<ge>N.
         cell_at (explorePheromones ((updatePheromones_binary64 ^^ n) (example_trail (binary64 0.005)))) 3 1
           = 0)"
proof -
  let ?s = "example_trail (binary64 0.005)"
  have rate: "1 / 2 ^ 54 < EVAPORATION_RATE ?s" "EVAPORATION_RATE ?s \<le> 1"
    unfolding example_trail_fields binary64_rate by simp_all
  have shape: "pheromone_shape ?s" by (rule example_trail_shape)
  have cell: "isValidGridPos (GRID_COLS ?s) (GRID_ROWS ?s) 3 1"
    unfolding example_trail_fields by (simp add: isValidGridPos_def)
  have e: "cell_at (explorePheromones ?s) 3 1 = 100" and r: "cell_at (returnPheromones ?s) 3 1 = 0"
    by (rule example_trail_cell)+
  have e0: "0 \<le> cell_at (explorePheromones ?s) 3 1" and r0: "0 \<le> cell_at (returnPheromones ?s) 3 1"
    unfolding e r by simp_all
  have one: "cell_at (explorePheromones (updatePheromones_binary64 ?s)) 3 1 = 99.5"
    using example_trail_run[of "Suc 0" "binary64 0.005"]
    by (simp only: funpow.simps o_apply id_apply first_step)
  from evaporation_decays_when_factor_rounds_below_one[OF rate shape cell e0 r0]
  have "\<exists>N. \<forall>n\<ge>N. cell_at (explorePheromones ((updatePheromones_binary64 ^^ n) ?s)) 3 1 = 0"
    by blast
  with rate shape cell e r one show ?thesis by (intro conjI)
qed

text \<open>
  The claim as the specification states it, for every positive rate, fails: for the rate
  \<open>2\<^sup>-\<^sup>5\<^sup>4\<close> the factor \<^verbatim>\<open>1.0 - evapRate\<close> is rounded to \<open>1.0\<close>, and a cell that
  holds \<open>100\<close> holds \<open>100\<close> after any number of evaporations.
\<close>

theorem evaporation_stuck_at_tiny_rate_counterexample:
  "0 < EVAPORATION_RATE (example_trail (1 / 2 ^ 54))
   \<and> EVAPORATION_RATE (example_trail (1 / 2 ^ 54)) \<le> 1
   \<and> PHEROMONE_MAX (example_trail (1 / 2 ^ 54)) = 255
   \<and> cell_at (explorePheromones (example_trail (1 / 2 ^ 54))) 3 1 = 100
   \<and> (\<forall>n. cell_at (explorePheromones ((updatePheromones_binary64 ^^ n) (example_trail (1 / 2 ^ 54)))) 3 1
            = 100)"
proof -
  have "(evaporate_cell_binary64 (1 / 2 ^ 54) ^^ n) 100 = 100" for n
    by (rule evaporate_cell_binary64_stuck) simp_all
  then have "\<forall>n. cell_at (explorePheromones ((updatePheromones_binary64 ^^ n) (example_trail (1 / 2 ^ 54)))) 3 1 = 100"
    by (simp only: example_trail_run) simp
  moreover have "0 < EVAPORATION_RATE (example_trail (1 / 2 ^ 54))"
    "EVAPORATION_RATE (example_trail (1 / 2 ^ 54)) \<le> 1"
    "PHEROMONE_MAX (example_trail (1 / 2 ^ 54)) = 255"
    by (simp_all add: example_trail_fields)
  ultimately show ?thesis using example_trail_cell(1)[of "1 / 2 ^ 54"] by (intro conjI)
qed


section \<open>The pheromone values stay within their bounds\<close>

lemma grid_all_nth:
  "grid_all P g \<longleftrightarrow> (\<forall>i<length g. \<forall>j<length (g ! i). P (g ! i ! j))"
  by (simp add: grid_all_def list_all_length)

lemma grid_all_map: "grid_all P (map (map f) g) \<longleftrightarrow> grid_all (\<lambda>v. P (f v)) g"
  by (simp add: grid_all_def list_all_iff)

lemma grid_all_mono: "grid_all P g \<Longrightarrow> (\<And>v. P v \<Longrightarrow> Q v) \<Longrightarrow> grid_all Q g"
  by (auto simp: grid_all_def list_all_iff)

lemma grid_all_createGrid: "P d \<Longrightarrow> grid_all P (createGrid cols rows d)"
  by (simp add: grid_all_def createGrid_def list_all_iff)

lemma grid_all_cell_set:
  assumes "grid_all P g" and "P v"
  shows "grid_all P (cell_set g x y v)"
  unfolding grid_all_nth cell_set_def
proof (intro allI impI)
  fix i j
  assume i: "i < length (g[nat x := (g ! nat x)[nat y := v]])"
    and j: "j < length (g[nat x := (g ! nat x)[nat y := v]] ! i)"
  from i have ig: "i < length g" by simp
  show "P (g[nat x := (g ! nat x)[nat y := v]] ! i ! j)"
  proof (cases "i = nat x")
    case True
    with ig j have jg: "j < length (g ! i)" by simp
    show ?thesis
      using True ig jg assms by (cases "j = nat y") (simp_all add: grid_all_nth)
  next
    case False
    with ig j assms show ?thesis by (simp add: grid_all_nth)
  qed
qed

lemma grid_shape_cell_set: "grid_shape cols rows g \<Longrightarrow> grid_shape cols rows (cell_set g x y v)"
proof -
  assume a: "grid_shape cols rows g"
  have "length (g[nat x := (g ! nat x)[nat y := v]] ! n) = nat rows" if "n < length g" for n
    using that a by (cases "n = nat x") (simp_all add: grid_shape_def list_all_length)
  with a show ?thesis
    by (simp add: grid_shape_def cell_set_def list_all_length)
qed

lemma grid_all_cell_at:
  "grid_all P g \<Longrightarrow> grid_shape cols rows g \<Longrightarrow> isValidGridPos cols rows x y \<Longrightarrow> P (cell_at g x y)"
  by (auto simp: grid_all_nth grid_shape_def isValidGridPos_def cell_at_def list_all_length)

lemma deposit_grid_bounded:
  assumes g: "grid_all (\<lambda>v. 0 \<le> v \<and> v \<le> M) (g :: real grid)" and shape: "grid_shape cols rows g"
    and valid: "isValidGridPos cols rows x y" and d: "0 \<le> d" and M: "0 \<le> M"
  shows "grid_all (\<lambda>v. 0 \<le> v \<and> v \<le> M)
           (let g1 = cell_set g x y (cell_at g x y + d)
            in cell_set g1 x y (min (cell_at g1 x y) M))"
proof -
  let ?g1 = "cell_set g x y (cell_at g x y + d)"
  have inr: "nat x < length g" "nat y < length (g ! nat x)"
    using shape valid by (auto simp: grid_shape_def isValidGridPos_def list_all_length)
  have old: "0 \<le> cell_at g x y" using grid_all_cell_at[OF g shape valid] by simp
  have g1: "cell_at ?g1 x y = cell_at g x y + d"
    using inr by (simp add: cell_at_set)
  have "cell_set ?g1 x y (min (cell_at ?g1 x y) M) = cell_set g x y (min (cell_at g x y + d) M)"
    by (simp add: g1 cell_set_same)
  moreover have "grid_all (\<lambda>v. 0 \<le> v \<and> v \<le> M) (cell_set g x y (min (cell_at g x y + d) M))"
    using g old d M by (intro grid_all_cell_set) (auto simp: min_def)
  ultimately show ?thesis by (simp add: Let_def)
qed

lemma depositPheromone_config [simp]:
  "PHEROMONE_MAX (depositPheromone s a) = PHEROMONE_MAX s"
  "EVAPORATION_RATE (depositPheromone s a) = EVAPORATION_RATE s"
  "GRID_COLS (depositPheromone s a) = GRID_COLS s"
  "GRID_ROWS (depositPheromone s a) = GRID_ROWS s"
  by (simp_all add: depositPheromone_def Let_def)

lemma updatePheromones_config [simp]:
  "PHEROMONE_MAX (updatePheromones s) = PHEROMONE_MAX s"
  "EVAPORATION_RATE (updatePheromones s) = EVAPORATION_RATE s"
  "GRID_COLS (updatePheromones s) = GRID_COLS s"
  "GRID_ROWS (updatePheromones s) = GRID_ROWS s"
  by (simp_all add: updatePheromones_def split: prod.splits)

lemma depositPheromone_shape:
  "pheromone_shape s \<Longrightarrow> pheromone_shape (depositPheromone s a)"
  by (simp add: depositPheromone_def pheromone_shape_def Let_def grid_shape_cell_set)

lemma updatePheromones_shape:
  "pheromone_shape s \<Longrightarrow> pheromone_shape (updatePheromones s)"
  by (simp add: updatePheromones_map) (simp add: pheromone_shape_def grid_shape_map)

lemma depositPheromone_bounded:
  assumes "pheromone_bounded s" "pheromone_shape s" "0 \<le> PHEROMONE_MAX s"
  shows "pheromone_bounded (depositPheromone s a)"
proof -
  have rate: "0 \<le> max 0 (map_p5 c 0 D 0 R)" for c D R :: real by simp
  from assms have e: "grid_all (\<lambda>v. 0 \<le> v \<and> v \<le> PHEROMONE_MAX s) (explorePheromones s)"
    and r: "grid_all (\<lambda>v. 0 \<le> v \<and> v \<le> PHEROMONE_MAX s) (returnPheromones s)"
    and se: "grid_shape (GRID_COLS s) (GRID_ROWS s) (explorePheromones s)"
    and sr: "grid_shape (GRID_COLS s) (GRID_ROWS s) (returnPheromones s)"
    by (simp_all add: pheromone_bounded_def pheromone_shape_def)
  show ?thesis
  proof (cases "charge a \<le> 0 \<or> \<not> isValidGridPos (GRID_COLS s) (GRID_ROWS s) (fst (gridPos a)) (snd (gridPos a))")
    case True
    then have "depositPheromone s a = s" by (auto simp: depositPheromone_def Let_def)
    with assms show ?thesis by simp
  next
    case False
    then have valid: "isValidGridPos (GRID_COLS s) (GRID_ROWS s) (fst (gridPos a)) (snd (gridPos a))"
      and c: "\<not> charge a \<le> 0" by simp_all
    show ?thesis
    proof (cases "state a = Searching")
      case True
      have "grid_all (\<lambda>v. 0 \<le> v \<and> v \<le> PHEROMONE_MAX s) (explorePheromones (depositPheromone s a))"
        using deposit_grid_bounded[OF e se valid rate assms(3), unfolded Let_def]
        by (simp add: depositPheromone_def Let_def True valid c)
      moreover have "returnPheromones (depositPheromone s a) = returnPheromones s"
        by (simp add: depositPheromone_def Let_def True valid c)
      ultimately show ?thesis using r by (simp add: pheromone_bounded_def)
    next
      case False
      have "grid_all (\<lambda>v. 0 \<le> v \<and> v \<le> PHEROMONE_MAX s) (returnPheromones (depositPheromone s a))"
        using deposit_grid_bounded[OF r sr valid rate assms(3), unfolded Let_def]
        by (simp add: depositPheromone_def Let_def False valid c)
      moreover have "explorePheromones (depositPheromone s a) = explorePheromones s"
        by (simp add: depositPheromone_def Let_def False valid c)
      ultimately show ?thesis using e by (simp add: pheromone_bounded_def)
    qed
  qed
qed

lemma updatePheromones_bounded:
  assumes "pheromone_bounded s" "pheromone_shape s" "0 \<le> EVAPORATION_RATE s" "EVAPORATION_RATE s \<le> 1"
  shows "pheromone_bounded (updatePheromones s)"
proof -
  have step: "0 \<le> evaporate_cell (EVAPORATION_RATE s) v \<and> evaporate_cell (EVAPORATION_RATE s) v \<le> PHEROMONE_MAX s"
    if "0 \<le> v \<and> v \<le> PHEROMONE_MAX s" for v
    using evaporate_cell_bounds[OF assms(3,4), of v] that by simp
  have "grid_all (\<lambda>v. 0 \<le> evaporate_cell (EVAPORATION_RATE s) v
                     \<and> evaporate_cell (EVAPORATION_RATE s) v \<le> PHEROMONE_MAX s) g"
    if "grid_all (\<lambda>v. 0 \<le> v \<and> v \<le> PHEROMONE_MAX s) g" for g
    using that step by (rule grid_all_mono)
  with assms(1) show ?thesis
    by (simp add: updatePheromones_map[OF assms(2)] pheromone_bounded_def grid_all_map)
qed

text \<open>
  Claim C5. Start with both grids as \<open>createGrid\<close> builds them, every cell \<open>0\<close>, with an
  evaporation rate between \<open>0\<close> and \<open>1\<close> and a non-negative \<open>PHEROMONE_MAX\<close>. Then
  after any sequence of evaporations (\<open>updatePheromones\<close>) and deposits
  (\<open>depositPheromone\<close>, of any ant), every cell of both grids is at least \<open>0\<close> and at
  most \<open>PHEROMONE_MAX\<close>. \<open>PHEROMONE_DURATION\<close> is taken to be non-zero, since the
  deposit divides by it.
\<close>

theorem pheromone_values_bounded:
  assumes explore: "explorePheromones s0 = createGrid (GRID_COLS s0) (GRID_ROWS s0) 0"
    and return: "returnPheromones s0 = createGrid (GRID_COLS s0) (GRID_ROWS s0) 0"
    and dims: "0 \<le> GRID_COLS s0" "0 \<le> GRID_ROWS s0"
    and rate: "0 \<le> EVAPORATION_RATE s0" "EVAPORATION_RATE s0 \<le> 1"
    and maxv: "0 \<le> PHEROMONE_MAX s0"
    and duration: "PHEROMONE_DURATION s0 \<noteq> 0"
    and run: "field_reachable s0 s"
  shows "pheromone_bounded s"
proof -
  have "pheromone_bounded s \<and> pheromone_shape s \<and> EVAPORATION_RATE s = EVAPORATION_RATE s0
        \<and> PHEROMONE_MAX s = PHEROMONE_MAX s0"
    using run
  proof (induction rule: field_reachable.induct)
    case start
    show ?case
      using explore return dims maxv
      by (simp add: pheromone_bounded_def pheromone_shape_def grid_all_createGrid grid_shape_createGrid)
  next
    case (evaporate s)
    then show ?case
      using rate by (simp add: updatePheromones_bounded updatePheromones_shape)
  next
    case (deposit s a)
    then show ?case
      using maxv by (simp add: depositPheromone_bounded depositPheromone_shape)
  qed
  then show ?thesis by simp
qed

theorem pheromone_values_bounded_witness:
  "explorePheromones (example_world (\<lambda>_. 0) []) = createGrid 7 3 0
   \<and> returnPheromones (example_world (\<lambda>_. 0) []) = createGrid 7 3 0
   \<and> GRID_COLS (example_world (\<lambda>_. 0) []) = 7 \<and> GRID_ROWS (example_world (\<lambda>_. 0) []) = 3
   \<and> EVAPORATION_RATE (example_world (\<lambda>_. 0) []) = 0.005
   \<and> PHEROMONE_MAX (example_world (\<lambda>_. 0) []) = 255
   \<and> PHEROMONE_DURATION (example_world (\<lambda>_. 0) []) = 5000
   \<and> pheromone_bounded
        (depositPheromone (updatePheromones (example_world (\<lambda>_. 0) []))
           (example_ant 1))"
proof -
  let ?s0 = "example_world (\<lambda>_. 0) []"
  have cfg: "explorePheromones ?s0 = createGrid (GRID_COLS ?s0) (GRID_ROWS ?s0) 0"
    "returnPheromones ?s0 = createGrid (GRID_COLS ?s0) (GRID_ROWS ?s0) 0"
    "0 \<le> GRID_COLS ?s0" "0 \<le> GRID_ROWS ?s0"
    "0 \<le> EVAPORATION_RATE ?s0" "EVAPORATION_RATE ?s0 \<le> 1"
    "0 \<le> PHEROMONE_MAX ?s0" "PHEROMONE_DURATION ?s0 \<noteq> 0"
    by (simp_all add: example_world_def)
  have run: "field_reachable ?s0 (depositPheromone (updatePheromones ?s0) (example_ant 1))"
    by (intro field_reachable.deposit field_reachable.evaporate field_reachable.start)
  from pheromone_values_bounded[OF cfg run] show ?thesis
    by (simp add: example_world_def)
qed

section \<open>The turn per tick\<close>

lemma norm_down_fixed: "d \<le> pi \<Longrightarrow> norm_down d = d"
  by (subst norm_down.simps) simp

lemma norm_up_fixed: "- pi \<le> d \<Longrightarrow> norm_up d = d"
  by (subst norm_up.simps) simp

lemma norm_down_range: "norm_down d \<le> pi \<and> (pi < d \<longrightarrow> - pi < norm_down d)"
proof (induction d rule: norm_down.induct)
  case (1 d)
  show ?case
  proof (cases "pi < d")
    case True
    note IH = 1[OF True]
    show ?thesis
    proof (cases "pi < d - 2 * pi")
      case True
      with IH \<open>pi < d\<close> show ?thesis by (subst (1 2) norm_down.simps) simp
    next
      case False
      then have "norm_down (d - 2 * pi) = d - 2 * pi" by (simp add: norm_down_fixed)
      with False \<open>pi < d\<close> show ?thesis by (subst (1 2) norm_down.simps) simp
    qed
  next
    case False
    then show ?thesis by (simp add: norm_down_fixed)
  qed
qed

lemma norm_down_turns: "\<exists>k::int. norm_down d = d + 2 * pi * of_int k"
proof (induction d rule: norm_down.induct)
  case (1 d)
  show ?case
  proof (cases "pi < d")
    case True
    from 1[OF True] obtain k :: int where "norm_down (d - 2 * pi) = d - 2 * pi + 2 * pi * of_int k"
      by blast
    then have "norm_down d = d + 2 * pi * of_int (k - 1)"
      using True by (subst norm_down.simps) (simp add: algebra_simps)
    then show ?thesis by blast
  next
    case False
    then have "norm_down d = d + 2 * pi * of_int 0" by (simp add: norm_down_fixed)
    then show ?thesis by blast
  qed
qed

lemma norm_up_range: "- pi \<le> norm_up d \<and> (d < - pi \<longrightarrow> norm_up d < pi)"
proof (induction d rule: norm_up.induct)
  case (1 d)
  show ?case
  proof (cases "d < - pi")
    case True
    note IH = 1[OF True]
    show ?thesis
    proof (cases "d + 2 * pi < - pi")
      case True
      with IH \<open>d < - pi\<close> show ?thesis by (subst (1 2) norm_up.simps) simp
    next
      case False
      then have "norm_up (d + 2 * pi) = d + 2 * pi" by (simp add: norm_up_fixed)
      with False \<open>d < - pi\<close> show ?thesis by (subst (1 2) norm_up.simps) simp
    qed
  next
    case False
    then show ?thesis by (simp add: norm_up_fixed)
  qed
qed

lemma norm_up_turns: "\<exists>k::int. norm_up d = d + 2 * pi * of_int k"
proof (induction d rule: norm_up.induct)
  case (1 d)
  show ?case
  proof (cases "d < - pi")
    case True
    from 1[OF True] obtain k :: int where "norm_up (d + 2 * pi) = d + 2 * pi + 2 * pi * of_int k"
      by blast
    then have "norm_up d = d + 2 * pi * of_int (k + 1)"
      using True by (subst norm_up.simps) (simp add: algebra_simps)
    then show ?thesis by blast
  next
    case False
    then have "norm_up d = d + 2 * pi * of_int 0" by (simp add: norm_up_fixed)
    then show ?thesis by blast
  qed
qed

lemma normalised_difference:
  "- pi \<le> norm_up (norm_down d) \<and> norm_up (norm_down d) \<le> pi
   \<and> (\<exists>k::int. norm_up (norm_down d) = d + 2 * pi * of_int k)"
proof -
  let ?e = "norm_down d"
  have e: "?e \<le> pi" using norm_down_range[of d] by simp
  have lo: "- pi \<le> norm_up ?e" using norm_up_range[of ?e] by simp
  have hi: "norm_up ?e \<le> pi"
  proof (cases "?e < - pi")
    case True
    then show ?thesis using norm_up_range[of ?e] by simp
  next
    case False
    then show ?thesis using e by (simp add: norm_up_fixed)
  qed
  obtain k :: int where k: "?e = d + 2 * pi * of_int k" using norm_down_turns by blast
  obtain l :: int where l: "norm_up ?e = ?e + 2 * pi * of_int l" using norm_up_turns by blast
  have "norm_up ?e = d + 2 * pi * of_int (k + l)"
    unfolding l by (subst k) (simp add: algebra_simps)
  with lo hi show ?thesis by blast
qed

text \<open>
  Claim C6. \<open>steer\<close> is the heading that \<open>move\<close> computes from the current heading and
  the desired heading, before the random perturbation. For a non-negative \<open>TURN_ANGLE\<close>
  and any two headings, it differs from the current heading by at most \<open>TURN_ANGLE\<close>.
  The turn goes the short way round: the difference of the headings is first brought into
  \<open>[-\<pi>, \<pi>]\<close> by whole turns, and the turn is that value cut off at
  \<open>\<plusminus>TURN_ANGLE\<close>.
\<close>

theorem turn_is_bounded:
  assumes "0 \<le> TURN_ANGLE s"
  shows "\<bar>steer s currentAngle desiredAngle - currentAngle\<bar> \<le> TURN_ANGLE s
       \<and> (\<exists>d (k::int). - pi \<le> d \<and> d \<le> pi
             \<and> d = desiredAngle - currentAngle + 2 * pi * of_int k
             \<and> steer s currentAngle desiredAngle - currentAngle
                 = (if TURN_ANGLE s < d then TURN_ANGLE s
                    else if d < - TURN_ANGLE s then - TURN_ANGLE s else d))"
proof -
  let ?d = "norm_up (norm_down (desiredAngle - currentAngle))"
  have turn: "steer s currentAngle desiredAngle - currentAngle
                = constrain ?d (- TURN_ANGLE s) (TURN_ANGLE s)"
    by (simp add: steer_def Let_def)
  have clamp: "constrain ?d (- TURN_ANGLE s) (TURN_ANGLE s)
                = (if TURN_ANGLE s < ?d then TURN_ANGLE s
                   else if ?d < - TURN_ANGLE s then - TURN_ANGLE s else ?d)"
    using assms by (simp add: constrain_def min_def max_def)
  have bound: "\<bar>constrain ?d (- TURN_ANGLE s) (TURN_ANGLE s)\<bar> \<le> TURN_ANGLE s"
    using assms by (auto simp: constrain_def min_def max_def abs_if)
  from normalised_difference[of "desiredAngle - currentAngle"]
  obtain k :: int where "- pi \<le> ?d" "?d \<le> pi" "?d = desiredAngle - currentAngle + 2 * pi * of_int k"
    by blast
  with turn clamp bound show ?thesis by (metis (no_types))
qed

theorem turn_is_bounded_witness:
  "0 \<le> TURN_ANGLE (example_world (\<lambda>_. 0) [])
   \<and> steer (example_world (\<lambda>_. 0) []) 0 (pi / 2) = pi / 6
   \<and> \<bar>steer (example_world (\<lambda>_. 0) []) 0 (pi / 2) - 0\<bar> \<le> TURN_ANGLE (example_world (\<lambda>_. 0) [])"
proof -
  have t: "0 \<le> TURN_ANGLE (example_world (\<lambda>_. 0) [])"
    by (simp add: example_world_def)
  have e: "steer (example_world (\<lambda>_. 0) []) 0 (pi / 2) = pi / 6"
    by (simp add: steer_def example_world_def constrain_def Let_def norm_down_fixed norm_up_fixed)
  have b: "\<bar>steer (example_world (\<lambda>_. 0) []) 0 (pi / 2) - 0\<bar> \<le> TURN_ANGLE (example_world (\<lambda>_. 0) [])"
    using turn_is_bounded[OF t, of 0 "pi / 2"] by blast
  from t e b show ?thesis by (intro conjI)
qed

section \<open>The probes of the sensing cone\<close>

lemma dist_multipliers_start: "dist_multipliers 0.5 = [0.5, 1, 1.5]"
  by (simp add: dist_multipliers.simps)

lemma angle_offsets_cone:
  "0 < S \<Longrightarrow> angle_offsets (- S / 2) (S / 2) (S / 4) = Some [- S / 2, - S / 4, 0, S / 4, S / 2]"
  by (simp add: angle_offsets.simps)

lemma radial_rounds:
  "probe_rounds (radial_probes s a angle v [0.5, 1, 1.5]) =
     [(angle, 0.5, CELL_SIZE s * SENSE_RADIUS s * 0.5),
      (angle, 1, CELL_SIZE s * SENSE_RADIUS s * 1),
      (angle, 1.5, CELL_SIZE s * SENSE_RADIUS s * 1.5)]"
  by (simp add: probe_rounds_def Let_def)

lemma probe_rounds_concat: "probe_rounds (concat pss) = concat (map probe_rounds pss)"
  by (induction pss) (simp_all add: probe_rounds_def)

lemma sense_probes_cone:
  assumes "0 < SENSE_ANGLE s"
  shows "sense_probes s a =
     Some (concat (map (\<lambda>angleOffset. radial_probes s a (heading (vel a) + angleOffset)
                          (fromAngle (heading (vel a) + angleOffset)) [0.5, 1, 1.5])
             [- SENSE_ANGLE s / 2, - SENSE_ANGLE s / 4, 0, SENSE_ANGLE s / 4, SENSE_ANGLE s / 2]))"
  unfolding sense_probes_def Let_def angle_offsets_cone[OF assms] dist_multipliers_start
  by (simp only: option.map)

lemma senseAndDecideAngle_returns:
  assumes "sense_probes s a = Some ps"
  shows "\<exists>r. senseAndDecideAngle s a = Some r"
  by (simp add: senseAndDecideAngle_def Let_def assms split: prod.splits)

lemma dist_p5_same_row: "dist_p5 x1 y x2 y = \<bar>x2 - x1\<bar>"
  by (simp add: dist_p5_def)

lemma example_ant_far: "distToTarget (example_world r as) (example_ant 1) = 4"
  by (simp add: distToTarget_def targetGridPos_def example_world_def example_ant_def dist_p5_same_row)

text \<open>
  Claim C1, as the code has it. Let \<open>SENSE_ANGLE\<close> be positive and the ant farther than
  \<open>GOAL_SENSE_RADIUS\<close> from its goal. Then the loops of \<open>senseAndDecideAngle\<close> end and make
  fifteen probes: for each of the five offsets \<open>-SENSE_ANGLE/2\<close>, \<open>-SENSE_ANGLE/4\<close>,
  \<open>0\<close>, \<open>SENSE_ANGLE/4\<close>, \<open>SENSE_ANGLE/2\<close> from the current heading the inner loop runs
  three times, with the factors \<open>0.5\<close>, \<open>1\<close> and \<open>1.5\<close> and
  \<open>senseDist = CELL_SIZE * SENSE_RADIUS * factor\<close>. The angle that
  \<open>senseAndDecideAngle\<close> returns is the one chosen by scoring these fifteen probes in
  this order.
\<close>

theorem sensing_makes_fifteen_probes:
  assumes "0 < SENSE_ANGLE s" and "GOAL_SENSE_RADIUS s < distToTarget s a"
  shows "\<exists>ps. sense_probes s a = Some ps \<and> length ps = 15
        \<and> probe_rounds ps =
            concat (map (\<lambda>angleOffset.
                     map (\<lambda>m. (heading (vel a) + angleOffset, m, CELL_SIZE s * SENSE_RADIUS s * m))
                       [0.5, 1, 1.5])
                   [- SENSE_ANGLE s / 2, - SENSE_ANGLE s / 4, 0, SENSE_ANGLE s / 4, SENSE_ANGLE s / 2])
        \<and> senseAndDecideAngle s a =
            (case fold (score_probe a) ps (- 1, heading (vel a), s) of
               (maxPheromone, bestAngle, s') \<Rightarrow>
                 if maxPheromone \<le> 0
                 then (case random_range s' (- TURN_ANGLE s * 0.5) (TURN_ANGLE s * 0.5) of
                         (r, s'') \<Rightarrow> Some (heading (vel a) + r, s''))
                 else Some (bestAngle, s'))"
proof -
  let ?ps = "concat (map (\<lambda>angleOffset. radial_probes s a (heading (vel a) + angleOffset)
                 (fromAngle (heading (vel a) + angleOffset)) [0.5, 1, 1.5])
               [- SENSE_ANGLE s / 2, - SENSE_ANGLE s / 4, 0, SENSE_ANGLE s / 4, SENSE_ANGLE s / 2])"
  have ps: "sense_probes s a = Some ?ps"
    by (rule sense_probes_cone[OF assms(1)])
  moreover have "length ?ps = 15" by (simp add: Let_def)
  moreover have "probe_rounds ?ps =
            concat (map (\<lambda>angleOffset.
                     map (\<lambda>m. (heading (vel a) + angleOffset, m, CELL_SIZE s * SENSE_RADIUS s * m))
                       [0.5, 1, 1.5])
                   [- SENSE_ANGLE s / 2, - SENSE_ANGLE s / 4, 0, SENSE_ANGLE s / 4, SENSE_ANGLE s / 2])"
    by (simp only: probe_rounds_concat map_map comp_def radial_rounds list.map)
  moreover have "senseAndDecideAngle s a =
            (case fold (score_probe a) ?ps (- 1, heading (vel a), s) of
               (maxPheromone, bestAngle, s') \<Rightarrow>
                 if maxPheromone \<le> 0
                 then (case random_range s' (- TURN_ANGLE s * 0.5) (TURN_ANGLE s * 0.5) of
                         (r, s'') \<Rightarrow> Some (heading (vel a) + r, s''))
                 else Some (bestAngle, s'))"
    using assms(2) unfolding senseAndDecideAngle_def Let_def ps
    by (simp only: not_le[symmetric] if_False option.case)
  ultimately show ?thesis by blast
qed

theorem sensing_makes_fifteen_probes_witness:
  "0 < SENSE_ANGLE (example_world (\<lambda>_. 0) [])
   \<and> GOAL_SENSE_RADIUS (example_world (\<lambda>_. 0) []) < distToTarget (example_world (\<lambda>_. 0) []) (example_ant 1)
   \<and> (\<exists>ps. sense_probes (example_world (\<lambda>_. 0) []) (example_ant 1) = Some ps \<and> length ps = 15)"
proof -
  have angle: "0 < SENSE_ANGLE (example_world (\<lambda>_. 0) [])"
    by (simp add: example_world_def)
  have far: "GOAL_SENSE_RADIUS (example_world (\<lambda>_. 0) []) < distToTarget (example_world (\<lambda>_. 0) []) (example_ant 1)"
    by (simp add: example_ant_far) (simp add: example_world_def)
  from sensing_makes_fifteen_probes[OF angle far] angle far show ?thesis by blast
qed

text \<open>
  The claim as the specification states it, ten probes at two distances, fails for the
  ant of the example at the colony, four cells from the food.
\<close>

theorem sensing_ten_probes_counterexample:
  "GOAL_SENSE_RADIUS (example_world (\<lambda>_. 0) []) < distToTarget (example_world (\<lambda>_. 0) []) (example_ant 1)
   \<and> map_option length (sense_probes (example_world (\<lambda>_. 0) []) (example_ant 1)) = Some 15
   \<and> map_option length (sense_probes (example_world (\<lambda>_. 0) []) (example_ant 1)) \<noteq> Some 10
   \<and> map_option (map distMultiplier) (sense_probes (example_world (\<lambda>_. 0) []) (example_ant 1))
       = Some [0.5, 1, 1.5, 0.5, 1, 1.5, 0.5, 1, 1.5, 0.5, 1, 1.5, 0.5, 1, 1.5]"
proof -
  have angle: "0 < SENSE_ANGLE (example_world (\<lambda>_. 0) [])"
    by (simp add: example_world_def)
  have far: "GOAL_SENSE_RADIUS (example_world (\<lambda>_. 0) []) < distToTarget (example_world (\<lambda>_. 0) []) (example_ant 1)"
    by (simp add: example_ant_far) (simp add: example_world_def)
  have len: "map_option length (sense_probes (example_world (\<lambda>_. 0) []) (example_ant 1)) = Some 15"
    by (simp add: sense_probes_cone[OF angle] Let_def)
  have mults: "map_option (map distMultiplier) (sense_probes (example_world (\<lambda>_. 0) []) (example_ant 1))
       = Some [0.5, 1, 1.5, 0.5, 1, 1.5, 0.5, 1, 1.5, 0.5, 1, 1.5, 0.5, 1, 1.5]"
    by (simp add: sense_probes_cone[OF angle] Let_def)
  have ne: "map_option length (sense_probes (example_world (\<lambda>_. 0) []) (example_ant 1)) \<noteq> Some 10"
    unfolding len by simp
  from far len ne mults show ?thesis by (intro conjI)
qed

section \<open>Where and how much an ant deposits\<close>

lemma only_counters_refl: "only_counters s s"
  unfolding only_counters_def
  by (rule exI[of _ "foodFoundCount s"], rule exI[of _ "rand_used s"]) simp

lemma only_counters_trans:
  assumes "only_counters s t" and "only_counters t u"
  shows "only_counters s u"
proof -
  from assms obtain k n k' n' where "t = s\<lparr>foodFoundCount := k, rand_used := n\<rparr>"
    and "u = t\<lparr>foodFoundCount := k', rand_used := n'\<rparr>"
    unfolding only_counters_def by blast
  then have "u = s\<lparr>foodFoundCount := k', rand_used := n'\<rparr>" by simp
  then show ?thesis unfolding only_counters_def by blast
qed

lemma only_counters_rand: "only_counters s (s\<lparr>rand_used := n\<rparr>)"
  unfolding only_counters_def
  by (rule exI[of _ "foodFoundCount s"], rule exI[of _ n]) simp

lemma only_counters_food:
  assumes "only_counters s t"
  shows "only_counters s (t\<lparr>foodFoundCount := k\<rparr>)"
proof -
  from assms obtain k' n where "t = s\<lparr>foodFoundCount := k', rand_used := n\<rparr>"
    unfolding only_counters_def by blast
  then have "t\<lparr>foodFoundCount := k\<rparr> = s\<lparr>foodFoundCount := k, rand_used := n\<rparr>" by simp
  then show ?thesis unfolding only_counters_def by blast
qed

lemma random01_frame: "random01 s = (u, s') \<Longrightarrow> only_counters s s'"
  by (auto simp: random01_def only_counters_rand)

lemma random_range_frame: "random_range s lo hi = (u, s') \<Longrightarrow> only_counters s s'"
  by (auto simp: random_range_def split: prod.splits dest: random01_frame)

lemma random2D_frame: "random2D s = (v, s') \<Longrightarrow> only_counters s s'"
  by (auto simp: random2D_def split: prod.splits dest: random01_frame)

lemma score_probe_frame:
  "score_probe a p (m, b, s) = (m', b', s') \<Longrightarrow> only_counters s s'"
  by (auto simp: score_probe_def Let_def only_counters_refl
           split: if_splits prod.splits dest: random_range_frame)

lemma fold_score_probe_frame:
  "fold (score_probe a) ps (m, b, s) = (m', b', s') \<Longrightarrow> only_counters s s'"
proof (induction ps arbitrary: m b s)
  case Nil
  then show ?case by (simp add: only_counters_refl)
next
  case (Cons p ps)
  obtain m1 b1 s1 where step: "score_probe a p (m, b, s) = (m1, b1, s1)"
    by (cases "score_probe a p (m, b, s)") auto
  with Cons.prems have "fold (score_probe a) ps (m1, b1, s1) = (m', b', s')" by simp
  then have "only_counters s1 s'" by (rule Cons.IH)
  with score_probe_frame[OF step] show ?case by (rule only_counters_trans)
qed

lemma senseAndDecideAngle_frame:
  assumes "senseAndDecideAngle s a = Some (angle, s')"
  shows "only_counters s s'"
proof (cases "distToTarget s a \<le> GOAL_SENSE_RADIUS s")
  case True
  with assms show ?thesis by (simp add: senseAndDecideAngle_def Let_def only_counters_refl)
next
  case False
  with assms obtain ps where ps: "sense_probes s a = Some ps"
    by (auto simp: senseAndDecideAngle_def Let_def split: option.splits)
  obtain m b s1 where f: "fold (score_probe a) ps (- 1, heading (vel a), s) = (m, b, s1)"
    by (cases "fold (score_probe a) ps (- 1, heading (vel a), s)") auto
  have s1: "only_counters s s1" using f by (rule fold_score_probe_frame)
  show ?thesis
  proof (cases "m \<le> 0")
    case True
    with assms False ps f obtain r where "random_range s1 (- TURN_ANGLE s * 0.5) (TURN_ANGLE s * 0.5) = (r, s')"
      by (auto simp: senseAndDecideAngle_def Let_def split: prod.splits)
    then have "only_counters s1 s'" by (rule random_range_frame)
    with s1 show ?thesis by (rule only_counters_trans)
  next
    case m: False
    with assms False ps f have "s' = s1"
      by (auto simp: senseAndDecideAngle_def Let_def split: prod.splits)
    with s1 show ?thesis by simp
  qed
qed

lemma senseAndDecideAngle_total:
  assumes "0 < SENSE_ANGLE s"
  shows "\<exists>r. senseAndDecideAngle s a = Some r"
proof (cases "distToTarget s a \<le> GOAL_SENSE_RADIUS s")
  case True
  then show ?thesis by (simp add: senseAndDecideAngle_def Let_def)
next
  case False
  from sense_probes_cone[OF assms] show ?thesis by (rule senseAndDecideAngle_returns)
qed

lemma move_frame:
  assumes "move s a = Some (a', s')"
  shows "only_counters s s' \<and> gridPos a' = gridPos a \<and> state a' = state a
         \<and> charge a' = charge a \<and> history a' = history a"
proof -
  from assms obtain desired s1 where sense: "senseAndDecideAngle s a = Some (desired, s1)"
    by (auto simp: move_def split: option.splits)
  have f1: "only_counters s s1" using sense by (rule senseAndDecideAngle_frame)
  obtain chance s2 where c: "random_range s1 0 1 = (chance, s2)"
    by (cases "random_range s1 0 1") auto
  have f2: "only_counters s s2" using f1 random_range_frame[OF c] by (rule only_counters_trans)
  obtain newAngle s3 where p: "(if chance < RANDOM_TURN_CHANCE s
                    then (case random_range s2 (- TURN_ANGLE s * 0.5) (TURN_ANGLE s * 0.5) of
                            (r, s3) \<Rightarrow> (steer s (heading (vel a)) desired + r, s3))
                    else (steer s (heading (vel a)) desired, s2)) = (newAngle, s3)"
    by (metis surj_pair)
  have f3: "only_counters s s3"
  proof (cases "chance < RANDOM_TURN_CHANCE s")
    case True
    with p obtain r where "random_range s2 (- TURN_ANGLE s * 0.5) (TURN_ANGLE s * 0.5) = (r, s3)"
      by (auto split: prod.splits)
    then have "only_counters s2 s3" by (rule random_range_frame)
    with f2 show ?thesis by (rule only_counters_trans)
  next
    case False
    with p f2 show ?thesis by simp
  qed
  let ?v = "mult (fromAngle newAngle) (ANT_SPEED s)"
  let ?next = "add_vec (pos a) ?v"
  let ?ng = "pixelToGrid s (fst ?next) (snd ?next)"
  obtain a4 s4 where q: "(if isValidGridPos (GRID_COLS s) (GRID_ROWS s) (fst ?ng) (snd ?ng)
                               \<and> cell_at (maze s) (fst ?ng) (snd ?ng) \<noteq> Wall
                            then (a\<lparr>vel := ?v, pos := ?next\<rparr>, s3)
                            else (case random2D s3 of (w, s4) \<Rightarrow>
                                    (a\<lparr>vel := mult w (ANT_SPEED s)\<rparr>, s4))) = (a4, s4)"
    by (metis surj_pair)
  have f4: "only_counters s s4 \<and> gridPos a4 = gridPos a \<and> state a4 = state a
         \<and> charge a4 = charge a \<and> history a4 = history a"
  proof (cases "isValidGridPos (GRID_COLS s) (GRID_ROWS s) (fst ?ng) (snd ?ng)
                               \<and> cell_at (maze s) (fst ?ng) (snd ?ng) \<noteq> Wall")
    case True
    with q f3 show ?thesis by auto
  next
    case False
    with q obtain w where w: "random2D s3 = (w, s4)" and a4: "a4 = a\<lparr>vel := mult w (ANT_SPEED s)\<rparr>"
      by (auto split: prod.splits)
    from f3 random2D_frame[OF w] have "only_counters s s4" by (rule only_counters_trans)
    with a4 show ?thesis by simp
  qed
  have "move s a = Some (a4\<lparr>pos := (constrain (fst (pos a4)) 0 (CELL_SIZE s * real_of_int (GRID_COLS s)),
                                   constrain (snd (pos a4)) 0 (CELL_SIZE s * real_of_int (GRID_ROWS s)))\<rparr>, s4)"
    unfolding move_def sense by (simp add: Let_def c p q)
  with assms f4 show ?thesis by auto
qed

lemma move_total:
  assumes "0 < SENSE_ANGLE s"
  shows "\<exists>r. move s a = Some r"
proof -
  from senseAndDecideAngle_total[OF assms] obtain desired s1
    where "senseAndDecideAngle s a = Some (desired, s1)" by (metis surj_pair)
  then show ?thesis
    by (simp add: move_def Let_def split: prod.splits)
qed

lemma checkEnvironment_frame:
  assumes "checkEnvironment s a = (a', s')"
  shows "only_counters s s' \<and> gridPos a' = gridPos a \<and> pos a' = pos a"
  using assms
  by (auto simp: checkEnvironment_def Let_def only_counters_refl
           split: if_splits prod.splits dest!: random2D_frame intro: only_counters_food)


lemma only_counters_fields:
  assumes "only_counters s s'"
  shows "explorePheromones s' = explorePheromones s" "returnPheromones s' = returnPheromones s"
    "GRID_COLS s' = GRID_COLS s" "GRID_ROWS s' = GRID_ROWS s" "CELL_SIZE s' = CELL_SIZE s"
    "PHEROMONE_MAX s' = PHEROMONE_MAX s" "PHEROMONE_DURATION s' = PHEROMONE_DURATION s"
    "DEPOSITION_RATE_EXPLORE s' = DEPOSITION_RATE_EXPLORE s"
    "DEPOSITION_RATE_RETURN s' = DEPOSITION_RATE_RETURN s"
    "SENSE_ANGLE s' = SENSE_ANGLE s" "ANT_HISTORY_LENGTH s' = ANT_HISTORY_LENGTH s"
    "maze s' = maze s" "ants s' = ants s" "rand s' = rand s"
  using assms by (auto simp: only_counters_def)

lemma deposit_twice:
  assumes "grid_shape cols rows g" and "isValidGridPos cols rows x y"
  shows "(let g1 = cell_set g x y (cell_at g x y + d)
          in cell_set g1 x y (min (cell_at g1 x y) M)) = cell_set g x y (min (cell_at g x y + d) M)"
proof -
  have inr: "nat x < length g" "nat y < length (g ! nat x)"
    using assms by (auto simp: grid_shape_def isValidGridPos_def list_all_length)
  show ?thesis
    by (simp add: Let_def cell_at_set[OF inr] cell_set_same)
qed

lemma depositPheromone_effect:
  assumes "pheromone_shape s"
  shows "explorePheromones (depositPheromone s a) =
     (if 0 < charge a \<and> isValidGridPos (GRID_COLS s) (GRID_ROWS s) (fst (gridPos a)) (snd (gridPos a))
         \<and> state a = Searching
      then cell_set (explorePheromones s) (fst (gridPos a)) (snd (gridPos a))
             (min (cell_at (explorePheromones s) (fst (gridPos a)) (snd (gridPos a))
                   + max 0 (charge a / PHEROMONE_DURATION s * DEPOSITION_RATE_EXPLORE s))
                  (PHEROMONE_MAX s))
      else explorePheromones s)"
    and "returnPheromones (depositPheromone s a) =
     (if 0 < charge a \<and> isValidGridPos (GRID_COLS s) (GRID_ROWS s) (fst (gridPos a)) (snd (gridPos a))
         \<and> state a \<noteq> Searching
      then cell_set (returnPheromones s) (fst (gridPos a)) (snd (gridPos a))
             (min (cell_at (returnPheromones s) (fst (gridPos a)) (snd (gridPos a))
                   + max 0 (charge a / PHEROMONE_DURATION s * DEPOSITION_RATE_RETURN s))
                  (PHEROMONE_MAX s))
      else returnPheromones s)"
proof -
  from assms have se: "grid_shape (GRID_COLS s) (GRID_ROWS s) (explorePheromones s)"
    and sr: "grid_shape (GRID_COLS s) (GRID_ROWS s) (returnPheromones s)"
    by (simp_all add: pheromone_shape_def)
  show "explorePheromones (depositPheromone s a) =
     (if 0 < charge a \<and> isValidGridPos (GRID_COLS s) (GRID_ROWS s) (fst (gridPos a)) (snd (gridPos a))
         \<and> state a = Searching
      then cell_set (explorePheromones s) (fst (gridPos a)) (snd (gridPos a))
             (min (cell_at (explorePheromones s) (fst (gridPos a)) (snd (gridPos a))
                   + max 0 (charge a / PHEROMONE_DURATION s * DEPOSITION_RATE_EXPLORE s))
                  (PHEROMONE_MAX s))
      else explorePheromones s)"
    using deposit_twice[OF se, unfolded Let_def]
    by (simp add: depositPheromone_def Let_def map_p5_def not_less)
  show "returnPheromones (depositPheromone s a) =
     (if 0 < charge a \<and> isValidGridPos (GRID_COLS s) (GRID_ROWS s) (fst (gridPos a)) (snd (gridPos a))
         \<and> state a \<noteq> Searching
      then cell_set (returnPheromones s) (fst (gridPos a)) (snd (gridPos a))
             (min (cell_at (returnPheromones s) (fst (gridPos a)) (snd (gridPos a))
                   + max 0 (charge a / PHEROMONE_DURATION s * DEPOSITION_RATE_RETURN s))
                  (PHEROMONE_MAX s))
      else returnPheromones s)"
    using deposit_twice[OF sr, unfolded Let_def]
    by (simp add: depositPheromone_def Let_def map_p5_def not_less)
qed

lemma addToHistory_fields:
  "gridPos (addToHistory s a) = gridPos a" "charge (addToHistory s a) = charge a"
  "state (addToHistory s a) = state a" "pos (addToHistory s a) = pos a"
  by (simp_all add: addToHistory_def Let_def)

lemma update_steps:
  assumes "0 < SENSE_ANGLE s"
  shows "\<exists>a2 s2 a4 s4.
           checkEnvironment s (updateGridPos s a) = (a2, s2)
         \<and> move s2 (a2\<lparr>charge := max 0 (charge a2 - 1)\<rparr>) = Some (a4, s4)
         \<and> update s a = Some (addToHistory (depositPheromone s4 a4) a4, depositPheromone s4 a4)"
proof -
  obtain a2 s2 where ce: "checkEnvironment s (updateGridPos s a) = (a2, s2)"
    by (metis surj_pair)
  have "only_counters s s2" using checkEnvironment_frame[OF ce] by simp
  then have "0 < SENSE_ANGLE s2" using assms by (simp add: only_counters_fields)
  from move_total[OF this] obtain a4 s4
    where mv: "move s2 (a2\<lparr>charge := max 0 (charge a2 - 1)\<rparr>) = Some (a4, s4)"
    by (metis surj_pair)
  have "update s a = Some (addToHistory (depositPheromone s4 a4) a4, depositPheromone s4 a4)"
    by (simp add: update_def Let_def ce mv)
  with ce mv show ?thesis by blast
qed


text \<open>
  Claim C3, as the code has it. \<open>update\<close> computes \<open>gridPos\<close> first, from the position the
  ant has before it moves, and \<open>move\<close> does not change it. With a positive \<open>SENSE_ANGLE\<close>
  (so that sensing returns), a positive \<open>CELL_SIZE\<close> and a \<open>PHEROMONE_DURATION\<close> other
  than \<open>0\<close> (so that no division is by \<open>0\<close>, where JavaScript gives \<open>Infinity\<close> or
  \<open>NaN\<close>), and grids of the configured size, one update of an ant returns,
  and afterwards: \<open>gridPos\<close> is the cell of the position before the move, clamped into
  the grid; if the charge left is positive (and \<open>gridPos\<close> is in the grid), the cell
  \<open>gridPos\<close> of the grid of the ant's state (explore when searching, return when
  returning) holds its old value plus \<open>charge / PHEROMONE_DURATION\<close> times the rate of that
  grid, not less than \<open>0\<close>, cut off at \<open>PHEROMONE_MAX\<close>; nothing else in the grids
  changes.
\<close>

theorem deposit_goes_to_cell_before_move:
  assumes angle: "0 < SENSE_ANGLE s" and shape: "pheromone_shape s"
    and duration: "PHEROMONE_DURATION s \<noteq> 0" and cellsize: "0 < CELL_SIZE s"
  shows "\<exists>a' s'. update s a = Some (a', s')
     \<and> gridPos a' = (constrain \<lfloor>fst (pos a) / CELL_SIZE s\<rfloor> 0 (GRID_COLS s - 1),
                     constrain \<lfloor>snd (pos a) / CELL_SIZE s\<rfloor> 0 (GRID_ROWS s - 1))
     \<and> explorePheromones s' =
         (if 0 < charge a'
             \<and> isValidGridPos (GRID_COLS s) (GRID_ROWS s) (fst (gridPos a')) (snd (gridPos a'))
             \<and> state a' = Searching
          then cell_set (explorePheromones s) (fst (gridPos a')) (snd (gridPos a'))
                 (min (cell_at (explorePheromones s) (fst (gridPos a')) (snd (gridPos a'))
                       + max 0 (charge a' / PHEROMONE_DURATION s * DEPOSITION_RATE_EXPLORE s))
                      (PHEROMONE_MAX s))
          else explorePheromones s)
     \<and> returnPheromones s' =
         (if 0 < charge a'
             \<and> isValidGridPos (GRID_COLS s) (GRID_ROWS s) (fst (gridPos a')) (snd (gridPos a'))
             \<and> state a' = Returning
          then cell_set (returnPheromones s) (fst (gridPos a')) (snd (gridPos a'))
                 (min (cell_at (returnPheromones s) (fst (gridPos a')) (snd (gridPos a'))
                       + max 0 (charge a' / PHEROMONE_DURATION s * DEPOSITION_RATE_RETURN s))
                      (PHEROMONE_MAX s))
          else returnPheromones s)"
proof -
  from update_steps[OF angle, of a] obtain a2 s2 a4 s4
    where ce: "checkEnvironment s (updateGridPos s a) = (a2, s2)"
      and mv: "move s2 (a2\<lparr>charge := max 0 (charge a2 - 1)\<rparr>) = Some (a4, s4)"
      and up: "update s a = Some (addToHistory (depositPheromone s4 a4) a4, depositPheromone s4 a4)"
    by blast
  let ?a' = "addToHistory (depositPheromone s4 a4) a4"
  let ?s' = "depositPheromone s4 a4"
  have f2: "only_counters s s2" and g2: "gridPos a2 = gridPos (updateGridPos s a)"
    using checkEnvironment_frame[OF ce] by simp_all
  have f4: "only_counters s2 s4" and g4: "gridPos a4 = gridPos a2"
    using move_frame[OF mv] by simp_all
  have f: "only_counters s s4" using f2 f4 by (rule only_counters_trans)
  have shape4: "pheromone_shape s4"
    using shape by (simp add: pheromone_shape_def only_counters_fields[OF f])
  have cell: "gridPos ?a' = (constrain \<lfloor>fst (pos a) / CELL_SIZE s\<rfloor> 0 (GRID_COLS s - 1),
                     constrain \<lfloor>snd (pos a) / CELL_SIZE s\<rfloor> 0 (GRID_ROWS s - 1))"
    by (simp add: addToHistory_fields g4 g2) (simp add: updateGridPos_def pixelToGrid_def Let_def)
  have returning: "state a4 \<noteq> Searching \<longleftrightarrow> state a4 = Returning"
    by (cases "state a4") simp_all
  have e: "explorePheromones ?s' =
         (if 0 < charge ?a'
             \<and> isValidGridPos (GRID_COLS s) (GRID_ROWS s) (fst (gridPos ?a')) (snd (gridPos ?a'))
             \<and> state ?a' = Searching
          then cell_set (explorePheromones s) (fst (gridPos ?a')) (snd (gridPos ?a'))
                 (min (cell_at (explorePheromones s) (fst (gridPos ?a')) (snd (gridPos ?a'))
                       + max 0 (charge ?a' / PHEROMONE_DURATION s * DEPOSITION_RATE_EXPLORE s))
                      (PHEROMONE_MAX s))
          else explorePheromones s)"
    by (simp only: depositPheromone_effect(1)[OF shape4] only_counters_fields[OF f] addToHistory_fields)
  have r: "returnPheromones ?s' =
         (if 0 < charge ?a'
             \<and> isValidGridPos (GRID_COLS s) (GRID_ROWS s) (fst (gridPos ?a')) (snd (gridPos ?a'))
             \<and> state ?a' = Returning
          then cell_set (returnPheromones s) (fst (gridPos ?a')) (snd (gridPos ?a'))
                 (min (cell_at (returnPheromones s) (fst (gridPos ?a')) (snd (gridPos ?a'))
                       + max 0 (charge ?a' / PHEROMONE_DURATION s * DEPOSITION_RATE_RETURN s))
                      (PHEROMONE_MAX s))
          else returnPheromones s)"
    by (simp only: depositPheromone_effect(2)[OF shape4] only_counters_fields[OF f] addToHistory_fields
          returning)
  from up cell e r show ?thesis by blast
qed

text \<open>The definitions that evaluate one update in the example.\<close>

lemmas eval_defs = update_def move_def senseAndDecideAngle_def distToTarget_def targetGridPos_def
  example_world_def example_ant_def dist_p5_same_row updateGridPos_def pixelToGrid_def constrain_def
  gridToPixel_def atan2_def checkEnvironment_def steer_def norm_down_fixed norm_up_fixed
  random_range_def random01_def random2D_def fromAngle_def heading_def mult_def add_vec_def
  isValidGridPos_def cell_at_def cell_set_def depositPheromone_def addToHistory_def map_p5_def
  createGrid_def Let_def

theorem deposit_goes_to_cell_before_move_witness:
  "0 < SENSE_ANGLE (example_world (\<lambda>_. 0.5) [])
   \<and> pheromone_shape (example_world (\<lambda>_. 0.5) [])
   \<and> PHEROMONE_DURATION (example_world (\<lambda>_. 0.5) []) \<noteq> 0
   \<and> 0 < CELL_SIZE (example_world (\<lambda>_. 0.5) [])
   \<and> (\<exists>a' s'. update (example_world (\<lambda>_. 0.5) []) (example_ant 3) = Some (a', s')
         \<and> gridPos a' = (3, 1))"
proof -
  have angle: "0 < SENSE_ANGLE (example_world (\<lambda>_. 0.5) [])"
    and duration: "PHEROMONE_DURATION (example_world (\<lambda>_. 0.5) []) \<noteq> 0"
    and cellsize: "0 < CELL_SIZE (example_world (\<lambda>_. 0.5) [])"
    by (simp_all add: example_world_def)
  have shape: "pheromone_shape (example_world (\<lambda>_. 0.5) [])"
    by (rule example_world_shape)
  have cell: "(constrain \<lfloor>fst (pos (example_ant 3)) / CELL_SIZE (example_world (\<lambda>_. 0.5) [])\<rfloor> 0
                 (GRID_COLS (example_world (\<lambda>_. 0.5) []) - 1),
               constrain \<lfloor>snd (pos (example_ant 3)) / CELL_SIZE (example_world (\<lambda>_. 0.5) [])\<rfloor> 0
                 (GRID_ROWS (example_world (\<lambda>_. 0.5) []) - 1)) = (3, 1)"
    by (simp add: example_world_def example_ant_def constrain_def)
  from deposit_goes_to_cell_before_move[OF angle shape duration cellsize, of "example_ant 3"]
  have "\<exists>a' s'. update (example_world (\<lambda>_. 0.5) []) (example_ant 3) = Some (a', s')
         \<and> gridPos a' = (3, 1)"
    unfolding cell by blast
  with angle shape duration cellsize show ?thesis by (intro conjI)
qed

text \<open>
  The claim as the specification states it, a deposit in the cell of the position after the
  move, fails: the ant of the example in cell \<open>(3, 1)\<close> moves into cell \<open>(4, 1)\<close>, and
  its deposit is in cell \<open>(3, 1)\<close>.
\<close>

theorem deposit_after_move_counterexample:
  "\<exists>a' s'. update (example_world (\<lambda>_. 0.5) []) (example_ant 3) = Some (a', s')
     \<and> pos (example_ant 3) = (3.5, 1.5) \<and> pos a' = (4.5, 1.5)
     \<and> pixelToGrid s' (fst (pos a')) (snd (pos a')) = (4, 1)
     \<and> 0 < charge a'
     \<and> cell_at (explorePheromones (example_world (\<lambda>_. 0.5) [])) 3 1 = 0
     \<and> cell_at (explorePheromones (example_world (\<lambda>_. 0.5) [])) 4 1 = 0
     \<and> cell_at (explorePheromones s') 3 1 = 14.997
     \<and> cell_at (explorePheromones s') 4 1 = 0"
  by (simp add: eval_defs)

section \<open>The order in which the ants are updated\<close>

lemma update_ants_below_order:
  "update_ants_below n s = update_in_order (rev [0..<n]) s"
proof (induction n arbitrary: s)
  case 0
  then show ?case by simp
next
  case (Suc n)
  show ?case
    by (simp add: update_at_def Suc split: option.splits)
qed

lemma updatePheromones_ants: "ants (updatePheromones s) = ants s"
  by (simp add: updatePheromones_def split: prod.splits)

text \<open>
  Claim C4, as the code has it. \<open>draw\<close> evaporates once, then updates the ants one
  after the other, each with its whole update, from the last of the list to the first, and
  then lets \<open>spawnNewAnts\<close> add an ant. \<open>spawnNewAnts\<close> leaves the list as it is or
  adds one ant at its end, so the ant spawned last is updated first.
\<close>

theorem ants_updated_last_to_first:
  "updateAndDrawAnts s = update_in_order (rev [0..<length (ants s)]) s
   \<and> draw now s =
       map_option (spawnNewAnts now)
         (update_in_order (rev [0..<length (ants s)]) (updatePheromones s))
   \<and> (ants (spawnNewAnts now s) = ants s \<or> (\<exists>a. ants (spawnNewAnts now s) = ants s @ [a]))"
proof (intro conjI)
  show "updateAndDrawAnts s = update_in_order (rev [0..<length (ants s)]) s"
    by (simp add: updateAndDrawAnts_def update_ants_below_order)
  show "draw now s =
       map_option (spawnNewAnts now)
         (update_in_order (rev [0..<length (ants s)]) (updatePheromones s))"
    by (simp add: draw_def updateAndDrawAnts_def update_ants_below_order updatePheromones_ants)
  show "ants (spawnNewAnts now s) = ants s \<or> (\<exists>a. ants (spawnNewAnts now s) = ants s @ [a])"
    by (auto simp add: spawnNewAnts_def new_ant_def random2D_def random01_def Let_def
             split: prod.splits)
qed

text \<open>Evaluating the update of the two ants of the example.\<close>

lemma steer_south:
  assumes "TURN_ANGLE s = pi / 6"
  shows "steer s (pi / 2) 0 = pi / 3"
proof -
  have le: "- (pi / 2) \<le> pi" "- pi \<le> - (pi / 2)" "- (pi / 2) \<le> - (pi / 6)" "- (pi / 2) \<le> pi / 6"
    using pi_gt_zero by linarith+
  have a: "norm_down (- (pi / 2)) = - (pi / 2)" by (rule norm_down_fixed) (rule le(1))
  have b: "norm_up (- (pi / 2)) = - (pi / 2)" by (rule norm_up_fixed) (rule le(2))
  have c: "constrain (- (pi / 2)) (- (pi / 6)) (pi / 6) = - (pi / 6)"
    unfolding constrain_def using le by (simp only: min_absorb1 max_absorb2)
  have "steer s (pi / 2) 0 = pi / 2 + constrain (norm_up (norm_down (0 - pi / 2))) (- TURN_ANGLE s) (TURN_ANGLE s)"
    by (simp add: steer_def Let_def)
  also have "\<dots> = pi / 2 + - (pi / 6)"
    by (simp only: assms diff_0 a b c)
  also have "\<dots> = pi / 3" by simp
  finally show ?thesis .
qed

lemma steer_east:
  assumes "TURN_ANGLE s = pi / 6"
  shows "steer s 0 0 = 0"
  unfolding steer_def Let_def assms constrain_def
  by (simp add: norm_down_fixed norm_up_fixed)

lemma heading_south: "heading (0, 1) = pi / 2"
  by (simp add: heading_def atan2_def)

lemma heading_east: "heading (1, 0) = 0"
  by (simp add: heading_def atan2_def)


lemma example_world_fields:
  "ANT_SPEED (example_world r as) = 1"
  "DEPOSITION_RATE_EXPLORE (example_world r as) = 15"
  "DEPOSITION_RATE_RETURN (example_world r as) = 15"
  "PHEROMONE_MAX (example_world r as) = 255"
  "PHEROMONE_DURATION (example_world r as) = 5000"
  "GOAL_SENSE_RADIUS (example_world r as) = 2"
  "TURN_ANGLE (example_world r as) = pi / 6"
  "RANDOM_TURN_CHANCE (example_world r as) = 0.1"
  "FOOD_DETECTION_RADIUS (example_world r as) = 1"
  "COLONY_DETECTION_RADIUS (example_world r as) = 1"
  "ANT_HISTORY_LENGTH (example_world r as) = 20"
  "GRID_COLS (example_world r as) = 7"
  "GRID_ROWS (example_world r as) = 3"
  "CELL_SIZE (example_world r as) = 1"
  "maze (example_world r as) =
     [[Wall, Wall, Wall], [Wall, Path, Wall], [Wall, Path, Wall], [Wall, Path, Wall],
      [Wall, Path, Wall], [Wall, Path, Wall], [Wall, Wall, Wall]]"
  "explorePheromones (example_world r as) = createGrid 7 3 0"
  "returnPheromones (example_world r as) = createGrid 7 3 0"
  "ants (example_world r as) = as"
  "colonyPos (example_world r as) = (1, 1)"
  "foodPos (example_world r as) = (5, 1)"
  "foodFoundCount (example_world r as) = 0"
  "rand (example_world r as) = r"
  "rand_used (example_world r as) = 0"
  by (simp_all add: example_world_def)

lemma floor_step: "\<lfloor>3 / 2 + sqrt 3 / 2\<rfloor> = 2"
proof -
  have a: "1 \<le> sqrt 3" by simp
  have b: "sqrt 3 < 3" by (rule real_less_lsqrt) simp_all
  have "(2::real) \<le> 3 / 2 + sqrt 3 / 2" using a by linarith
  then have "of_int 2 \<le> 3 / 2 + sqrt 3 / 2" by simp
  moreover have "3 / 2 + sqrt 3 / 2 < (3::real)" using b by linarith
  then have "3 / 2 + sqrt 3 / 2 < of_int 2 + 1" by simp
  ultimately show ?thesis by (rule floor_unique)
qed

lemmas eval_two = example_world_fields example_ant_def update_def move_def senseAndDecideAngle_def
  distToTarget_def targetGridPos_def dist_p5_same_row updateGridPos_def pixelToGrid_def constrain_def
  gridToPixel_def atan2_def checkEnvironment_def steer_east steer_south heading_east heading_south
  random_range_def random01_def random2D_def fromAngle_def mult_def add_vec_def
  isValidGridPos_def cell_at_def cell_set_def depositPheromone_def addToHistory_def map_p5_def
  createGrid_def Let_def floor_step cos_60 sin_60

text \<open>
  The claim as the specification states it, first to last, fails on the two ants of the
  example: the ant that is updated first draws the first random number, and in the order of
  the code three numbers are drawn, in the order of the claim four.
\<close>

theorem ants_first_to_last_counterexample:
  "updateAndDrawAnts (example_world example_draws example_ants)
     \<noteq> update_in_order [0..<length (ants (example_world example_draws example_ants))]
          (example_world example_draws example_ants)
   \<and> map_option rand_used (updateAndDrawAnts (example_world example_draws example_ants)) = Some 3
   \<and> map_option rand_used
         (update_in_order [0..<length (ants (example_world example_draws example_ants))]
            (example_world example_draws example_ants)) = Some 4"
proof -
  have code: "map_option rand_used (updateAndDrawAnts (example_world example_draws example_ants)) = Some 3"
    by (simp add: updateAndDrawAnts_def example_ants_def example_draws_def numeral_2_eq_2 eval_two)
  have claimed: "map_option rand_used
         (update_in_order [0..<length (ants (example_world example_draws example_ants))]
            (example_world example_draws example_ants)) = Some 4"
    by (simp add: update_at_def example_ants_def example_draws_def upt_rec eval_two)
  have "updateAndDrawAnts (example_world example_draws example_ants)
     \<noteq> update_in_order [0..<length (ants (example_world example_draws example_ants))]
          (example_world example_draws example_ants)"
  proof
    assume "updateAndDrawAnts (example_world example_draws example_ants)
      = update_in_order [0..<length (ants (example_world example_draws example_ants))]
          (example_world example_draws example_ants)"
    then have "Some (3::nat) = Some 4" using code claimed by simp
    then show False by simp
  qed
  with code claimed show ?thesis by (intro conjI)
qed

section \<open>Placing colony and food: the ring search\<close>

lemma grid_read_valid:
  "grid_shape cols rows g \<Longrightarrow> isValidGridPos cols rows x y \<Longrightarrow> grid_read g x y = Inr (cell_at g x y)"
  by (auto simp: grid_read_def grid_shape_def isValidGridPos_def cell_at_def list_all_length)

lemma find_append: "find P (xs @ ys) = (case find P xs of None \<Rightarrow> find P ys | Some x \<Rightarrow> Some x)"
  by (induction xs) auto

lemma scan_j_find:
  assumes "maze_shape s"
  shows "scan_j s tx ty r i j =
     Inr (find (open_cell s)
            (map (\<lambda>j. (tx + i, ty + j)) (filter (\<lambda>j. \<bar>i\<bar> = r \<or> \<bar>j\<bar> = r) [j..r])))"
  using assms
proof (induction s tx ty r i j rule: scan_j.induct)
  case (1 s tx ty r i j)
  from "1.prems" have shape: "grid_shape (GRID_COLS s) (GRID_ROWS s) (maze s)"
    by (simp add: maze_shape_def)
  show ?case
  proof (cases "j \<le> r")
    case False
    then show ?thesis by (subst scan_j.simps) simp
  next
    case True
    then have range: "[j..r] = j # [j + 1..r]" by (simp add: upto_rec1)
    show ?thesis
    proof (cases "\<bar>i\<bar> \<noteq> r \<and> \<bar>j\<bar> \<noteq> r")
      case inner: True
      have "scan_j s tx ty r i j = scan_j s tx ty r i (j + 1)"
        using True inner by (subst scan_j.simps) simp
      also note "1.IH"(1)[OF True inner "1.prems"]
      finally show ?thesis using inner by (simp add: range)
    next
      case edge: False
      then have e: "(\<bar>i\<bar> \<noteq> r \<and> \<bar>j\<bar> \<noteq> r) = False" by simp
      show ?thesis
      proof (cases "isValidGridPos (GRID_COLS s) (GRID_ROWS s) (tx + i) (ty + j)")
        case valid: True
        have read: "grid_read (maze s) (tx + i) (ty + j) = Inr (cell_at (maze s) (tx + i) (ty + j))"
          using shape valid by (rule grid_read_valid)
        show ?thesis
        proof (cases "cell_at (maze s) (tx + i) (ty + j) = Path")
          case True
          then have "scan_j s tx ty r i j = Inr (Some (tx + i, ty + j))"
            using \<open>j \<le> r\<close> valid read by (subst scan_j.simps) (simp add: Let_def e)
          moreover have "open_cell s (tx + i, ty + j)"
            using valid True by (simp add: open_cell_def)
          ultimately show ?thesis using edge by (simp add: range)
        next
          case wall: False
          have "scan_j s tx ty r i j = scan_j s tx ty r i (j + 1)"
            using \<open>j \<le> r\<close> valid read wall by (subst scan_j.simps) (simp add: Let_def e)
          also have "\<dots> = Inr (find (open_cell s)
            (map (\<lambda>j. (tx + i, ty + j)) (filter (\<lambda>j. \<bar>i\<bar> = r \<or> \<bar>j\<bar> = r) [j + 1..r])))"
            using "1.IH"(2)[OF \<open>j \<le> r\<close> edge refl refl valid read _ "1.prems"] wall by simp
          finally have "scan_j s tx ty r i j = Inr (find (open_cell s)
            (map (\<lambda>j. (tx + i, ty + j)) (filter (\<lambda>j. \<bar>i\<bar> = r \<or> \<bar>j\<bar> = r) [j + 1..r])))" .
          moreover have "\<not> open_cell s (tx + i, ty + j)"
            using wall by (simp add: open_cell_def)
          ultimately show ?thesis
            using edge by (simp add: range)
        qed
      next
        case invalid: False
        have "scan_j s tx ty r i j = scan_j s tx ty r i (j + 1)"
          using \<open>j \<le> r\<close> invalid by (subst scan_j.simps) (simp add: Let_def e)
        also note "1.IH"(3)[OF \<open>j \<le> r\<close> edge refl refl invalid "1.prems"]
        finally have "scan_j s tx ty r i j = Inr (find (open_cell s)
            (map (\<lambda>j. (tx + i, ty + j)) (filter (\<lambda>j. \<bar>i\<bar> = r \<or> \<bar>j\<bar> = r) [j + 1..r])))" .
        moreover have "\<not> open_cell s (tx + i, ty + j)"
          using invalid by (simp add: open_cell_def)
        ultimately show ?thesis
          using edge by (simp add: range)
      qed
    qed
  qed
qed


lemma scan_i_find:
  assumes "maze_shape s"
  shows "scan_i s tx ty r i =
     Inr (find (open_cell s)
            (concat (map (\<lambda>i. map (\<lambda>j. (tx + i, ty + j))
                               (filter (\<lambda>j. \<bar>i\<bar> = r \<or> \<bar>j\<bar> = r) [- r..r]))
                         [i..r])))"
  using assms
proof (induction s tx ty r i rule: scan_i.induct)
  case (1 s tx ty r i)
  let ?row = "\<lambda>i. map (\<lambda>j. (tx + i, ty + j)) (filter (\<lambda>j. \<bar>i\<bar> = r \<or> \<bar>j\<bar> = r) [- r..r])"
  show ?case
  proof (cases "i \<le> r")
    case False
    then show ?thesis by (subst scan_i.simps) simp
  next
    case True
    then have range: "[i..r] = i # [i + 1..r]" by (simp add: upto_rec1)
    have row: "scan_j s tx ty r i (- r) = Inr (find (open_cell s) (?row i))"
      using "1.prems" by (rule scan_j_find)
    show ?thesis
    proof (cases "find (open_cell s) (?row i)")
      case None
      have "scan_i s tx ty r i = scan_i s tx ty r (i + 1)"
        using True row None by (subst scan_i.simps) simp
      also have "\<dots> = Inr (find (open_cell s) (concat (map ?row [i + 1..r])))"
        using "1.IH"[OF True _ _ "1.prems"] row None by simp
      finally show ?thesis using None by (simp add: range find_append)
    next
      case (Some p)
      have "scan_i s tx ty r i = Inr (Some p)"
        using True row Some by (subst scan_i.simps) simp
      then show ?thesis using Some by (simp add: range find_append)
    qed
  qed
qed

lemma scan_i_ring:
  "maze_shape s \<Longrightarrow> scan_i s tx ty r (- r) = Inr (find (open_cell s) (ring tx ty r))"
  by (simp add: scan_i_find ring_def)

lemma scan_radius_find:
  assumes "maze_shape s"
  shows "scan_radius s tx ty r =
     Inr (find (open_cell s) (concat (map (ring tx ty) [r..max (GRID_COLS s) (GRID_ROWS s) - 1])))"
  using assms
proof (induction s tx ty r rule: scan_radius.induct)
  case (1 s tx ty r)
  let ?top = "max (GRID_COLS s) (GRID_ROWS s)"
  show ?case
  proof (cases "r < ?top")
    case False
    then have "[r..?top - 1] = []" by simp
    then show ?thesis using False by (subst scan_radius.simps) simp
  next
    case True
    then have range: "[r..?top - 1] = r # [r + 1..?top - 1]" by (simp add: upto_rec1)
    have one: "scan_i s tx ty r (- r) = Inr (find (open_cell s) (ring tx ty r))"
      using "1.prems" by (rule scan_i_ring)
    show ?thesis
    proof (cases "find (open_cell s) (ring tx ty r)")
      case None
      have "scan_radius s tx ty r = scan_radius s tx ty (r + 1)"
        using True one None by (subst scan_radius.simps) simp
      also have "\<dots> = Inr (find (open_cell s) (concat (map (ring tx ty) [r + 1..?top - 1])))"
        using "1.IH"[OF True _ _ "1.prems"] one None by simp
      finally show ?thesis using None by (simp add: range find_append)
    next
      case (Some p)
      have "scan_radius s tx ty r = Inr (Some p)"
        using True one Some by (subst scan_radius.simps) simp
      then show ?thesis using Some by (simp add: range find_append)
    qed
  qed
qed

lemma clamped_target_valid:
  assumes "maze_shape s"
  shows "isValidGridPos (GRID_COLS s) (GRID_ROWS s)
           (constrain tx 0 (GRID_COLS s - 1)) (constrain ty 0 (GRID_ROWS s - 1))"
  using assms by (auto simp: maze_shape_def isValidGridPos_def constrain_def)

lemma findValidPosition_search:
  assumes "maze_shape s"
  shows "findValidPosition s tx ty =
     Inr (if open_cell s (constrain tx 0 (GRID_COLS s - 1), constrain ty 0 (GRID_ROWS s - 1))
          then Some (constrain tx 0 (GRID_COLS s - 1), constrain ty 0 (GRID_ROWS s - 1))
          else ring_search s (constrain tx 0 (GRID_COLS s - 1)) (constrain ty 0 (GRID_ROWS s - 1)))"
proof -
  let ?x = "constrain tx 0 (GRID_COLS s - 1)" and ?y = "constrain ty 0 (GRID_ROWS s - 1)"
  have valid: "isValidGridPos (GRID_COLS s) (GRID_ROWS s) ?x ?y"
    using assms by (rule clamped_target_valid)
  have "grid_shape (GRID_COLS s) (GRID_ROWS s) (maze s)" using assms by (simp add: maze_shape_def)
  then have read: "grid_read (maze s) ?x ?y = Inr (cell_at (maze s) ?x ?y)"
    using valid by (rule grid_read_valid)
  have "open_cell s (?x, ?y) \<longleftrightarrow> cell_at (maze s) ?x ?y = Path"
    using valid by (simp add: open_cell_def)
  then show ?thesis
    by (simp add: findValidPosition_def Let_def read scan_radius_find[OF assms] ring_search_def)
qed


lemma example_maze_shape: "maze_shape (example_world r as)"
  by (simp add: maze_shape_def example_world_def grid_shape_def)

lemma set_ring: "set (ring tx ty r) = {p. chebyshev p (tx, ty) = r}"
proof (rule set_eqI)
  fix p :: gridpos
  obtain x y where p: "p = (x, y)" by (cases p)
  have "p \<in> set (ring tx ty r) \<longleftrightarrow>
        (\<exists>i j. - r \<le> i \<and> i \<le> r \<and> - r \<le> j \<and> j \<le> r \<and> (\<bar>i\<bar> = r \<or> \<bar>j\<bar> = r) \<and> x = tx + i \<and> y = ty + j)"
    by (auto simp: ring_def p)
  also have "\<dots> \<longleftrightarrow> max \<bar>x - tx\<bar> \<bar>y - ty\<bar> = r"
  proof
    assume "\<exists>i j. - r \<le> i \<and> i \<le> r \<and> - r \<le> j \<and> j \<le> r \<and> (\<bar>i\<bar> = r \<or> \<bar>j\<bar> = r) \<and> x = tx + i \<and> y = ty + j"
    then show "max \<bar>x - tx\<bar> \<bar>y - ty\<bar> = r" by auto
  next
    assume m: "max \<bar>x - tx\<bar> \<bar>y - ty\<bar> = r"
    then have "- r \<le> x - tx \<and> x - tx \<le> r \<and> - r \<le> y - ty \<and> y - ty \<le> r
               \<and> (\<bar>x - tx\<bar> = r \<or> \<bar>y - ty\<bar> = r) \<and> x = tx + (x - tx) \<and> y = ty + (y - ty)"
      by auto
    then show "\<exists>i j. - r \<le> i \<and> i \<le> r \<and> - r \<le> j \<and> j \<le> r \<and> (\<bar>i\<bar> = r \<or> \<bar>j\<bar> = r) \<and> x = tx + i \<and> y = ty + j"
      by blast
  qed
  finally show "p \<in> set (ring tx ty r) \<longleftrightarrow> p \<in> {p. chebyshev p (tx, ty) = r}"
    by (simp add: chebyshev_def p)
qed

lemma rings_cover:
  assumes "isValidGridPos cols rows tx ty" and "isValidGridPos cols rows x y" and "(x, y) \<noteq> (tx, ty)"
  shows "(x, y) \<in> set (concat (map (ring tx ty) [1..max cols rows - 1]))"
proof -
  let ?d = "chebyshev (x, y) (tx, ty)"
  have "1 \<le> ?d" using assms(3) by (auto simp: chebyshev_def)
  moreover have "?d \<le> max cols rows - 1"
    using assms(1,2) by (auto simp: chebyshev_def isValidGridPos_def)
  moreover have "(x, y) \<in> set (ring tx ty ?d)" by (simp add: set_ring)
  ultimately show ?thesis by auto
qed

lemma ring_search_None:
  assumes "isValidGridPos (GRID_COLS s) (GRID_ROWS s) tx ty" and "\<not> open_cell s (tx, ty)"
  shows "ring_search s tx ty = None \<longleftrightarrow> (\<forall>p. \<not> open_cell s p)"
proof
  assume none: "ring_search s tx ty = None"
  show "\<forall>p. \<not> open_cell s p"
  proof (intro allI notI)
    fix p assume o: "open_cell s p"
    obtain x y where p: "p = (x, y)" by (cases p)
    from o p have valid: "isValidGridPos (GRID_COLS s) (GRID_ROWS s) x y" by (simp add: open_cell_def)
    from o p assms(2) have "(x, y) \<noteq> (tx, ty)" by auto
    from rings_cover[OF assms(1) valid this] none o p show False
      by (auto simp: ring_search_def find_None_iff)
  qed
next
  assume "\<forall>p. \<not> open_cell s p"
  then show "ring_search s tx ty = None" by (simp add: ring_search_def find_None_iff)
qed

text \<open>
  Claim C7. On a maze of the configured size, \<open>findValidPosition\<close> returns the clamped
  target when that cell is a path, and otherwise the first path cell of the grid on the
  rings around the clamped target, in the order of the rings and within a ring in the
  order of the scan. A target that is itself a path cell of the grid is returned as it
  is. A ring of radius \<open>r\<close> is exactly the set of cells at Chebyshev distance \<open>r\<close>,
  so only the perimeter is looked at. When the clamped target is a wall, the result is
  \<^verbatim>\<open>null\<close> exactly when the grid has no path cell.
\<close>

theorem findValidPosition_ring_order:
  assumes "maze_shape s"
  shows "findValidPosition s targetX targetY =
           Inr (if open_cell s (clamped_target s targetX targetY)
                then Some (clamped_target s targetX targetY)
                else ring_search s (fst (clamped_target s targetX targetY))
                       (snd (clamped_target s targetX targetY)))
       \<and> (open_cell s (targetX, targetY) \<longrightarrow>
            findValidPosition s targetX targetY = Inr (Some (targetX, targetY)))
       \<and> (\<forall>x y r. set (ring x y r) = {p. chebyshev p (x, y) = r})
       \<and> (\<not> open_cell s (clamped_target s targetX targetY) \<longrightarrow>
            (findValidPosition s targetX targetY = Inr None \<longleftrightarrow> (\<forall>p. \<not> open_cell s p)))"
proof -
  let ?t = "clamped_target s targetX targetY"
  have search: "findValidPosition s targetX targetY =
           Inr (if open_cell s ?t then Some ?t else ring_search s (fst ?t) (snd ?t))"
    using findValidPosition_search[OF assms, of targetX targetY]
    by (simp add: clamped_target_def)
  have valid: "isValidGridPos (GRID_COLS s) (GRID_ROWS s) (fst ?t) (snd ?t)"
    using clamped_target_valid[OF assms] by (simp add: clamped_target_def)
  have same: "findValidPosition s targetX targetY = Inr (Some (targetX, targetY))"
    if "open_cell s (targetX, targetY)"
  proof -
    from that have "?t = (targetX, targetY)"
      by (auto simp: open_cell_def isValidGridPos_def clamped_target_def constrain_def)
    with that search show ?thesis by simp
  qed
  have none: "findValidPosition s targetX targetY = Inr None \<longleftrightarrow> (\<forall>p. \<not> open_cell s p)"
    if "\<not> open_cell s ?t"
    using that search ring_search_None[of s "fst ?t" "snd ?t"] valid by simp
  from search same none set_ring show ?thesis by blast
qed

theorem findValidPosition_ring_order_witness:
  "maze_shape (example_world (\<lambda>_. 0) [])
   \<and> clamped_target (example_world (\<lambda>_. 0) []) 0 0 = (0, 0)
   \<and> \<not> open_cell (example_world (\<lambda>_. 0) []) (0, 0)
   \<and> findValidPosition (example_world (\<lambda>_. 0) []) 0 0 = Inr (Some (1, 1))"
proof -
  have shape: "maze_shape (example_world (\<lambda>_. 0) [])"
    by (rule example_maze_shape)
  have t: "clamped_target (example_world (\<lambda>_. 0) []) 0 0 = (0, 0)"
    by (simp add: clamped_target_def example_world_def constrain_def)
  have wall: "\<not> open_cell (example_world (\<lambda>_. 0) []) (0, 0)"
    by (simp add: open_cell_def cell_at_def example_world_def)
  have search: "ring_search (example_world (\<lambda>_. 0) []) 0 0 = Some (1, 1)"
    by (simp add: ring_search_def ring_def open_cell_def isValidGridPos_def cell_at_def
          example_world_def upto_rec1)
  from findValidPosition_ring_order[OF shape, of 0 0]
  have "findValidPosition (example_world (\<lambda>_. 0) []) 0 0 = Inr (Some (1, 1))"
    unfolding t using wall search by simp
  with shape t wall show ?thesis by (intro conjI)
qed

text \<open>
  Claim C10. On a maze of the configured size and for any integer target, the clamped
  target is a cell of the grid, no access of \<open>findValidPosition\<close> to the maze is out of
  bounds (the result is never \<open>Inl\<close>), and the result is \<^verbatim>\<open>null\<close> or a cell of the grid
  that is a path.
\<close>

theorem findValidPosition_safe:
  assumes "maze_shape s"
  shows "isValidGridPos (GRID_COLS s) (GRID_ROWS s)
           (fst (clamped_target s targetX targetY)) (snd (clamped_target s targetX targetY))
       \<and> (findValidPosition s targetX targetY = Inr None
          \<or> (\<exists>p. findValidPosition s targetX targetY = Inr (Some p)
                 \<and> isValidGridPos (GRID_COLS s) (GRID_ROWS s) (fst p) (snd p)
                 \<and> grid_read (maze s) (fst p) (snd p) = Inr Path))"
proof -
  let ?t = "clamped_target s targetX targetY"
  have valid: "isValidGridPos (GRID_COLS s) (GRID_ROWS s) (fst ?t) (snd ?t)"
    using clamped_target_valid[OF assms] by (simp add: clamped_target_def)
  have shape: "grid_shape (GRID_COLS s) (GRID_ROWS s) (maze s)"
    using assms by (simp add: maze_shape_def)
  have hit: "isValidGridPos (GRID_COLS s) (GRID_ROWS s) (fst p) (snd p)
        \<and> grid_read (maze s) (fst p) (snd p) = Inr Path" if "open_cell s p" for p
    using that grid_read_valid[OF shape, of "fst p" "snd p"] by (simp add: open_cell_def)
  have search: "findValidPosition s targetX targetY =
           Inr (if open_cell s ?t then Some ?t else ring_search s (fst ?t) (snd ?t))"
    using findValidPosition_search[OF assms, of targetX targetY]
    by (simp add: clamped_target_def)
  show ?thesis
  proof (cases "open_cell s ?t")
    case True
    with search hit valid show ?thesis by auto
  next
    case False
    show ?thesis
    proof (cases "ring_search s (fst ?t) (snd ?t)")
      case None
      with search False valid show ?thesis by simp
    next
      case (Some p)
      then have "open_cell s p" by (auto simp: ring_search_def find_Some_iff)
      with search False Some hit valid show ?thesis by auto
    qed
  qed
qed

theorem findValidPosition_safe_witness:
  "maze_shape (example_world (\<lambda>_. 0) [])
   \<and> clamped_target (example_world (\<lambda>_. 0) []) 100 (- 100) = (6, 0)
   \<and> (findValidPosition (example_world (\<lambda>_. 0) []) 100 (- 100) = Inr None
       \<or> (\<exists>p. findValidPosition (example_world (\<lambda>_. 0) []) 100 (- 100) = Inr (Some p)
              \<and> isValidGridPos 7 3 (fst p) (snd p)
              \<and> grid_read (maze (example_world (\<lambda>_. 0) [])) (fst p) (snd p) = Inr Path))"
proof -
  have shape: "maze_shape (example_world (\<lambda>_. 0) [])"
    by (rule example_maze_shape)
  have t: "clamped_target (example_world (\<lambda>_. 0) []) 100 (- 100) = (6, 0)"
    by (simp add: clamped_target_def example_world_def constrain_def)
  have dims: "GRID_COLS (example_world (\<lambda>_. 0) []) = 7" "GRID_ROWS (example_world (\<lambda>_. 0) []) = 3"
    by (simp_all add: example_world_def)
  from findValidPosition_safe[OF shape, of 100 "- 100"] shape t show ?thesis
    unfolding dims by blast
qed

section \<open>The generated maze\<close>

lemma grid_write_read:
  assumes "grid_shape cols rows g" and "isValidGridPos cols rows x y"
  shows "\<exists>g'. grid_write g x y v = Inr g' \<and> grid_shape cols rows g'
           \<and> (\<forall>x' y'. grid_read g' x' y' = (if x' = x \<and> y' = y then Inr v else grid_read g x' y'))"
proof -
  from assms have x: "0 \<le> x" "nat x < length g" and y: "0 \<le> y" "nat y < length (g ! nat x)"
    by (auto simp: grid_shape_def isValidGridPos_def list_all_length)
  then have xi: "x < int (length g)" and yi: "y < int (length (g ! nat x))"
    by linarith+
  let ?g = "g[nat x := (g ! nat x)[nat y := v]]"
  have w: "grid_write g x y v = Inr ?g"
    using x y xi yi by (simp add: grid_write_def)
  have "?g = cell_set g x y v" by (simp add: cell_set_def)
  then have shape: "grid_shape cols rows ?g"
    using grid_shape_cell_set[OF assms(1), of x y v] by simp
  have read: "grid_read ?g x' y' = (if x' = x \<and> y' = y then Inr v else grid_read g x' y')" for x' y'
  proof (cases "0 \<le> x' \<and> x' < int (length g)")
    case False
    then show ?thesis using x by (auto simp: grid_read_def)
  next
    case True
    show ?thesis
    proof (cases "x' = x")
      case same: True
      then show ?thesis
        using x y xi yi by (cases "y' = y") (auto simp: grid_read_def nat_eq_iff)
    next
      case False
      with True x have "nat x' \<noteq> nat x" by (simp add: nat_eq_iff)
      then show ?thesis using True False by (simp add: grid_read_def)
    qed
  qed
  from w shape read show ?thesis by blast
qed

lemma reachable_mono:
  assumes "reachable g a p" and "\<And>q. is_path g q \<Longrightarrow> is_path g' q"
  shows "reachable g' a p"
  using assms(1)
proof (induction rule: reachable.induct)
  case here
  then show ?case by (simp add: assms(2) reachable.here)
next
  case (step p q)
  then show ?case by (meson assms(2) reachable.step)
qed

lemma interior_valid: "interior mc mr p \<Longrightarrow> isValidGridPos mc mr (fst p) (snd p)"
  by (simp add: interior_def isValidGridPos_def)

lemma unvisited_neighbors_Cons:
  "unvisited_neighbors mc mr vis (n # ns) =
     (if interior mc mr n
      then (case grid_read vis (fst n) (snd n) of
              Inl e \<Rightarrow> Inl e
            | Inr v \<Rightarrow>
                (case unvisited_neighbors mc mr vis ns of
                   Inl e \<Rightarrow> Inl e
                 | Inr neighbors \<Rightarrow> Inr (if \<not> v then n # neighbors else neighbors)))
      else unvisited_neighbors mc mr vis ns)"
  by (simp add: interior_def)

lemma unvisited_neighbors_total:
  assumes "grid_shape mc mr vis"
  shows "\<exists>res. unvisited_neighbors mc mr vis ns = Inr res
           \<and> (\<forall>n \<in> set ns. interior mc mr n \<and> \<not> is_visited vis n \<longrightarrow> n \<in> set res)"
proof (induction ns)
  case Nil
  then show ?case by simp
next
  case (Cons m ns)
  then obtain rest where rest: "unvisited_neighbors mc mr vis ns = Inr rest"
    and all: "\<forall>n \<in> set ns. interior mc mr n \<and> \<not> is_visited vis n \<longrightarrow> n \<in> set rest"
    by blast
  show ?case
  proof (cases "interior mc mr m")
    case False
    then have "unvisited_neighbors mc mr vis (m # ns) = Inr rest"
      using rest by (simp only: unvisited_neighbors_Cons if_False)
    with all False show ?thesis by simp
  next
    case True
    then have "isValidGridPos mc mr (fst m) (snd m)" by (rule interior_valid)
    with assms have read: "grid_read vis (fst m) (snd m) = Inr (cell_at vis (fst m) (snd m))"
      by (rule grid_read_valid)
    let ?v = "cell_at vis (fst m) (snd m)"
    have eq: "unvisited_neighbors mc mr vis (m # ns) = Inr (if \<not> ?v then m # rest else rest)"
      using True rest read by (simp only: unvisited_neighbors_Cons if_True sum.case)
    have "m \<in> set (if \<not> ?v then m # rest else rest)" if "\<not> is_visited vis m"
      using that read by (simp add: is_visited_def)
    with eq all show ?thesis by auto
  qed
qed

lemma random_element_unit:
  assumes "0 \<le> u" and "u < 1" and "xs \<noteq> []"
  shows "\<exists>x. random_element u xs = Inr x"
proof -
  let ?n = "real (length xs)"
  have n: "0 < ?n" using assms(3) by simp
  have "0 \<le> u * ?n" using assms(1) by simp
  then have lo: "0 \<le> \<lfloor>u * ?n\<rfloor>" by simp
  have "u * ?n < 1 * ?n" using assms(2) n by (intro mult_strict_right_mono) simp_all
  then have "u * ?n < real_of_int (int (length xs))" by simp
  then have hi: "\<lfloor>u * ?n\<rfloor> < int (length xs)" by (simp only: floor_less_iff)
  from lo hi show ?thesis by (simp add: random_element_def Let_def)
qed

lemma wall_between:
  assumes "chosen \<in> set (potentialNeighbors current)"
  shows "adjacent current (fst current + (fst chosen - fst current) div 2,
                           snd current + (snd chosen - snd current) div 2)"
    and "adjacent (fst current + (fst chosen - fst current) div 2,
                   snd current + (snd chosen - snd current) div 2) chosen"
    and "interior mc mr current \<Longrightarrow> interior mc mr chosen \<Longrightarrow>
         interior mc mr (fst current + (fst chosen - fst current) div 2,
                         snd current + (snd chosen - snd current) div 2)"
  using assms by (auto simp: potentialNeighbors_def adjacent_def interior_def)

lemma carve_step_empty: "c_stack st = [] \<Longrightarrow> carve_step mc mr rng st = Inr None"
  by (simp add: carve_step_def)

lemma carve_step_backtrack:
  assumes "c_stack st = current # below"
    and "unvisited_neighbors mc mr (c_visited st) (potentialNeighbors current) = Inr []"
  shows "carve_step mc mr rng st = Inr (Some (st\<lparr>c_stack := below\<rparr>))"
  using assms by (simp add: carve_step_def)

lemma carve_step_forward:
  assumes "c_stack st = current # below"
    and "unvisited_neighbors mc mr (c_visited st) (potentialNeighbors current) = Inr neighbors"
    and "neighbors \<noteq> []"
    and "random_element (rng (c_draws st)) neighbors = Inr chosen"
    and "grid_write (c_maze st) (fst current + (fst chosen - fst current) div 2)
           (snd current + (snd chosen - snd current) div 2) Path = Inr maze1"
    and "grid_write (c_visited st) (fst chosen) (snd chosen) True = Inr visited1"
    and "grid_write maze1 (fst chosen) (snd chosen) Path = Inr maze2"
  shows "carve_step mc mr rng st =
           Inr (Some \<lparr>c_maze = maze2, c_visited = visited1, c_stack = chosen # c_stack st,
                      c_draws = Suc (c_draws st)\<rparr>)"
  using assms by (simp add: carve_step_def Let_def)

lemma carve_step_inv:
  assumes inv: "carve_inv mc mr start st" and rng: "unit_draws rng"
  shows "(c_stack st = [] \<and> carve_step mc mr rng st = Inr None)
       \<or> (\<exists>st'. carve_step mc mr rng st = Inr (Some st') \<and> carve_inv mc mr start st')"
proof (cases "c_stack st")
  case Nil
  then show ?thesis by (simp add: carve_step_empty)
next
  case (Cons current below)
  from inv have shape_m: "grid_shape mc mr (c_maze st)" and shape_v: "grid_shape mc mr (c_visited st)"
    and stack: "\<forall>p \<in> set (c_stack st). interior mc mr p \<and> is_visited (c_visited st) p"
    and vis_path: "\<forall>p. is_visited (c_visited st) p \<longrightarrow> is_path (c_maze st) p"
    and path: "\<forall>p. is_path (c_maze st) p \<longrightarrow> interior mc mr p \<and> reachable (c_maze st) start p"
    and vstart: "is_visited (c_visited st) start"
    and closed: "\<forall>p. is_visited (c_visited st) p \<and> p \<notin> set (c_stack st) \<longrightarrow>
           (\<forall>n \<in> set (potentialNeighbors p). interior mc mr n \<longrightarrow> is_visited (c_visited st) n)"
    by (simp_all add: carve_inv_def)
  from stack Cons have cur: "interior mc mr current" "is_visited (c_visited st) current" by simp_all
  from unvisited_neighbors_total[OF shape_v, of "potentialNeighbors current"]
  obtain neighbors
    where nb: "unvisited_neighbors mc mr (c_visited st) (potentialNeighbors current) = Inr neighbors"
      and complete: "\<forall>n \<in> set (potentialNeighbors current).
                        interior mc mr n \<and> \<not> is_visited (c_visited st) n \<longrightarrow> n \<in> set neighbors"
    by blast
  show ?thesis
  proof (cases "neighbors = []")
    case True
    let ?st' = "st\<lparr>c_stack := below\<rparr>"
    have step: "carve_step mc mr rng st = Inr (Some ?st')"
      using Cons nb True by (simp add: carve_step_backtrack)
    have "\<forall>p. is_visited (c_visited st) p \<and> p \<notin> set below \<longrightarrow>
           (\<forall>n \<in> set (potentialNeighbors p). interior mc mr n \<longrightarrow> is_visited (c_visited st) n)"
    proof (intro allI impI ballI)
      fix p n
      assume p: "is_visited (c_visited st) p \<and> p \<notin> set below"
        and n: "n \<in> set (potentialNeighbors p)" "interior mc mr n"
      show "is_visited (c_visited st) n"
      proof (cases "p = current")
        case False
        with p Cons have "p \<notin> set (c_stack st)" by simp
        with closed p n show ?thesis by blast
      next
        case same: True
        with complete n True show ?thesis by auto
      qed
    qed
    then have "carve_inv mc mr start ?st'"
      using shape_m shape_v stack vis_path path vstart Cons by (simp add: carve_inv_def)
    with step show ?thesis by blast
  next
    case False
    from rng have "0 \<le> rng (c_draws st)" "rng (c_draws st) < 1" by (simp_all add: unit_draws_def)
    from random_element_unit[OF this False] obtain chosen
      where pick: "random_element (rng (c_draws st)) neighbors = Inr chosen" by blast
    from random_element_member[OF pick] unvisited_neighbors_sound[OF nb, of chosen]
    have ch: "chosen \<in> set (potentialNeighbors current)"
      and unvisited: "grid_read (c_visited st) (fst chosen) (snd chosen) = Inr False"
      and ch_int: "interior mc mr chosen"
      by (simp_all add: interior_def)
    let ?wall = "(fst current + (fst chosen - fst current) div 2,
                  snd current + (snd chosen - snd current) div 2)"
    have adj1: "adjacent current ?wall" and adj2: "adjacent ?wall chosen"
      and wall_int: "interior mc mr ?wall"
      using wall_between[OF ch] cur(1) ch_int by simp_all
    from grid_write_read[OF shape_m interior_valid[OF wall_int], of Path]
    obtain maze1 where w1: "grid_write (c_maze st) (fst ?wall) (snd ?wall) Path = Inr maze1"
      and shape1: "grid_shape mc mr maze1"
      and read1: "\<And>x y. grid_read maze1 x y =
                    (if x = fst ?wall \<and> y = snd ?wall then Inr Path else grid_read (c_maze st) x y)"
      by blast
    from grid_write_read[OF shape_v interior_valid[OF ch_int], of True]
    obtain visited1 where w2: "grid_write (c_visited st) (fst chosen) (snd chosen) True = Inr visited1"
      and shape_v1: "grid_shape mc mr visited1"
      and readv: "\<And>x y. grid_read visited1 x y =
                    (if x = fst chosen \<and> y = snd chosen then Inr True else grid_read (c_visited st) x y)"
      by blast
    from grid_write_read[OF shape1 interior_valid[OF ch_int], of Path]
    obtain maze2 where w3: "grid_write maze1 (fst chosen) (snd chosen) Path = Inr maze2"
      and shape2: "grid_shape mc mr maze2"
      and read2: "\<And>x y. grid_read maze2 x y =
                    (if x = fst chosen \<and> y = snd chosen then Inr Path else grid_read maze1 x y)"
      by blast
    let ?st' = "\<lparr>c_maze = maze2, c_visited = visited1, c_stack = chosen # c_stack st,
                 c_draws = Suc (c_draws st)\<rparr>"
    have step: "carve_step mc mr rng st = Inr (Some ?st')"
      using Cons nb False pick w1 w2 w3 by (intro carve_step_forward) simp_all
    have path2: "is_path maze2 p \<longleftrightarrow> p = chosen \<or> p = ?wall \<or> is_path (c_maze st) p" for p
      by (cases p) (auto simp: is_path_def read2 read1)
    have vis1: "is_visited visited1 p \<longleftrightarrow> p = chosen \<or> is_visited (c_visited st) p" for p
      by (cases p) (auto simp: is_visited_def readv)
    have mono: "reachable maze2 start p" if "reachable (c_maze st) start p" for p
      using that by (rule reachable_mono) (simp add: path2)
    have r_cur: "reachable maze2 start current"
      using cur(2) vis_path path mono by blast
    have r_wall: "reachable maze2 start ?wall"
      using r_cur adj1 by (rule reachable.step) (simp add: path2)
    have r_chosen: "reachable maze2 start chosen"
      using r_wall adj2 by (rule reachable.step) (simp add: path2)
    have i1: "\<forall>p \<in> set (chosen # c_stack st). interior mc mr p \<and> is_visited visited1 p"
      using stack ch_int by (simp add: vis1)
    have i2: "\<forall>p. is_visited visited1 p \<longrightarrow> is_path maze2 p"
      using vis_path by (auto simp: vis1 path2)
    have i3: "\<forall>p. is_path maze2 p \<longrightarrow> interior mc mr p \<and> reachable maze2 start p"
      using path mono r_wall r_chosen ch_int wall_int by (auto simp: path2)
    have i4: "is_visited visited1 start" using vstart by (simp add: vis1)
    have i5: "\<forall>p. is_visited visited1 p \<and> p \<notin> set (chosen # c_stack st) \<longrightarrow>
           (\<forall>n \<in> set (potentialNeighbors p). interior mc mr n \<longrightarrow> is_visited visited1 n)"
      using closed by (auto simp: vis1)
    have "carve_inv mc mr start ?st'"
      using shape2 shape_v1 i1 i2 i3 i4 i5 by (simp add: carve_inv_def)
    with step show ?thesis by blast
  qed
qed

lemma carve_inv_loop:
  assumes "carve_inv mc mr start st" and "unit_draws rng"
  shows "\<exists>st'. carve mc mr rng st = Inr st' \<and> carve_inv mc mr start st' \<and> c_stack st' = []"
  using assms
proof (induction mc mr rng st rule: carve.induct)
  case (1 mc mr rng st)
  from carve_step_inv[OF "1.prems"] show ?case
  proof
    assume "c_stack st = [] \<and> carve_step mc mr rng st = Inr None"
    then have "carve mc mr rng st = Inr st" "c_stack st = []"
      by (simp_all add: carve.simps)
    with "1.prems"(1) show ?thesis by blast
  next
    assume "\<exists>st'. carve_step mc mr rng st = Inr (Some st') \<and> carve_inv mc mr start st'"
    then obtain st' where step: "carve_step mc mr rng st = Inr (Some st')"
      and inv': "carve_inv mc mr start st'" by blast
    from "1.IH"[OF step refl inv' "1.prems"(2)] obtain st''
      where "carve mc mr rng st' = Inr st''" "carve_inv mc mr start st''" "c_stack st'' = []"
      by blast
    moreover have "carve mc mr rng st = carve mc mr rng st'"
      using step by (subst carve.simps) simp
    ultimately show ?thesis by simp
  qed
qed

lemma maze_dimension_odd: "3 \<le> maze_dimension c \<and> odd (maze_dimension c)"
  by (auto simp: maze_dimension_def Let_def)

lemma start_cell_interior:
  assumes "3 \<le> mc" "odd mc" "3 \<le> mr" "odd mr"
  shows "interior mc mr (start_cell rng mc mr) \<and> odd (fst (start_cell rng mc mr))
         \<and> odd (snd (start_cell rng mc mr))"
proof -
  let ?x = "\<lfloor>rng 0 * (real_of_int (mc - 1) / 2)\<rfloor> * 2 + 1"
  let ?y = "\<lfloor>rng 1 * (real_of_int (mr - 1) / 2)\<rfloor> * 2 + 1"
  have ox: "odd ?x" and oy: "odd ?y" by simp_all
  show ?thesis
  proof (cases "?x < 0 \<or> ?x \<ge> mc \<or> ?y < 0 \<or> ?y \<ge> mr")
    case True
    then have "start_cell rng mc mr = (1, 1)" by (simp add: start_cell_def Let_def)
    with assms show ?thesis by (simp add: interior_def)
  next
    case False
    then have s: "start_cell rng mc mr = (?x, ?y)" by (simp add: start_cell_def Let_def)
    from False ox assms have "0 < ?x \<and> ?x < mc - 1" by presburger
    moreover from False oy assms have "0 < ?y \<and> ?y < mr - 1" by presburger
    ultimately show ?thesis using ox oy unfolding s interior_def by simp
  qed
qed

lemma lattice_visited:
  assumes closed: "\<And>p n. V p \<Longrightarrow> n \<in> set (potentialNeighbors p) \<Longrightarrow> interior mc mr n \<Longrightarrow> V n"
    and start: "V start" "interior mc mr start" "odd (fst start)" "odd (snd start)"
    and p: "interior mc mr p" "odd (fst p)" "odd (snd p)"
  shows "V p"
  using p
proof (induction "nat (\<bar>fst p - fst start\<bar> + \<bar>snd p - snd start\<bar>)" arbitrary: p rule: less_induct)
  case less
  obtain x y where pxy: "p = (x, y)" by (cases p)
  obtain sx sy where sxy: "start = (sx, sy)" by (cases start)
  from less.prems pxy have x: "0 < x" "x < mc - 1" "odd x" and y: "0 < y" "y < mr - 1" "odd y"
    by (simp_all add: interior_def)
  from start sxy have sx: "0 < sx" "sx < mc - 1" "odd sx" and sy: "0 < sy" "sy < mr - 1" "odd sy"
    by (simp_all add: interior_def)
  have step: "V p" if q: "interior mc mr q" "odd (fst q)" "odd (snd q)"
    and closer: "\<bar>fst q - sx\<bar> + \<bar>snd q - sy\<bar> < \<bar>x - sx\<bar> + \<bar>y - sy\<bar>"
    and nb: "p \<in> set (potentialNeighbors q)" for q
  proof -
    have "nat (\<bar>fst q - fst start\<bar> + \<bar>snd q - snd start\<bar>) < nat (\<bar>fst p - fst start\<bar> + \<bar>snd p - snd start\<bar>)"
      using closer by (simp add: pxy sxy)
    from less.hyps[OF this q] have "V q" .
    from closed[OF this nb less.prems(1)] show ?thesis .
  qed
  consider "x < sx" | "sx < x" | "x = sx" "y < sy" | "x = sx" "sy < y" | "x = sx" "y = sy"
    by linarith
  then show ?case
  proof cases
    case 1
    with x sx have "x + 2 \<le> sx" by presburger
    then show ?thesis
      using x y sx 1 by (intro step[of "(x + 2, y)"]) (auto simp: interior_def potentialNeighbors_def pxy)
  next
    case 2
    with x sx have "sx + 2 \<le> x" by presburger
    then show ?thesis
      using x y sx 2 by (intro step[of "(x - 2, y)"]) (auto simp: interior_def potentialNeighbors_def pxy)
  next
    case 3
    with y sy have "y + 2 \<le> sy" by presburger
    then show ?thesis
      using x y sy 3 by (intro step[of "(x, y + 2)"]) (auto simp: interior_def potentialNeighbors_def pxy)
  next
    case 4
    with y sy have "sy + 2 \<le> y" by presburger
    then show ?thesis
      using x y sy 4 by (intro step[of "(x, y - 2)"]) (auto simp: interior_def potentialNeighbors_def pxy)
  next
    case 5
    with start(1) show ?thesis by (simp add: pxy sxy)
  qed
qed

lemma grid_read_createGrid:
  assumes "0 \<le> cols" "0 \<le> rows"
  shows "grid_read (createGrid cols rows d) x y =
           (if isValidGridPos cols rows x y then Inr d else Inl OutOfBounds)"
  using assms by (auto simp: grid_read_def createGrid_def isValidGridPos_def)

lemma generateMaze_result:
  assumes rng: "unit_draws rng"
  shows "\<exists>r. generateMaze rng cols rows = Inr r
       \<and> finalCols r = maze_dimension cols \<and> finalRows r = maze_dimension rows
       \<and> grid_shape (finalCols r) (finalRows r) (grid r)
       \<and> is_path (grid r) (1, 1) \<and> is_path (grid r) (finalCols r - 2, finalRows r - 2)
       \<and> (\<forall>p. is_path (grid r) p \<longrightarrow>
             interior (finalCols r) (finalRows r) p
             \<and> reachable (grid r) (start_cell rng (finalCols r) (finalRows r)) p)"
proof -
  let ?mc = "maze_dimension cols" and ?mr = "maze_dimension rows"
  let ?start = "start_cell rng ?mc ?mr"
  have mc: "3 \<le> ?mc" "odd ?mc" and mr: "3 \<le> ?mr" "odd ?mr"
    using maze_dimension_odd by simp_all
  have start: "interior ?mc ?mr ?start" "odd (fst ?start)" "odd (snd ?start)"
    using start_cell_interior[OF mc mr] by simp_all
  have nonneg: "0 \<le> ?mc" "0 \<le> ?mr" using mc mr by simp_all
  have shape_m0: "grid_shape ?mc ?mr (createGrid ?mc ?mr Wall)"
    and shape_v0: "grid_shape ?mc ?mr (createGrid ?mc ?mr False)"
    using nonneg by (simp_all add: grid_shape_createGrid)
  from grid_write_read[OF shape_v0 interior_valid[OF start(1)], of True]
  obtain visited1 where wv: "grid_write (createGrid ?mc ?mr False) (fst ?start) (snd ?start) True = Inr visited1"
    and shape_v1: "grid_shape ?mc ?mr visited1"
    and readv: "\<And>x y. grid_read visited1 x y =
        (if x = fst ?start \<and> y = snd ?start then Inr True else grid_read (createGrid ?mc ?mr False) x y)"
    by blast
  from grid_write_read[OF shape_m0 interior_valid[OF start(1)], of Path]
  obtain maze1 where wm: "grid_write (createGrid ?mc ?mr Wall) (fst ?start) (snd ?start) Path = Inr maze1"
    and shape_m1: "grid_shape ?mc ?mr maze1"
    and readm: "\<And>x y. grid_read maze1 x y =
        (if x = fst ?start \<and> y = snd ?start then Inr Path else grid_read (createGrid ?mc ?mr Wall) x y)"
    by blast
  let ?st0 = "\<lparr>c_maze = maze1, c_visited = visited1, c_stack = [?start], c_draws = 2\<rparr>"
  have vis0: "is_visited visited1 p \<longleftrightarrow> p = ?start" for p
  proof -
    have "is_visited visited1 p \<longleftrightarrow> fst p = fst ?start \<and> snd p = snd ?start"
      by (simp add: is_visited_def readv grid_read_createGrid[OF nonneg])
    then show ?thesis by (simp only: prod_eq_iff)
  qed
  have path0: "is_path maze1 p \<longleftrightarrow> p = ?start" for p
  proof -
    have "is_path maze1 p \<longleftrightarrow> fst p = fst ?start \<and> snd p = snd ?start"
      by (simp add: is_path_def readm grid_read_createGrid[OF nonneg])
    then show ?thesis by (simp only: prod_eq_iff)
  qed
  have "reachable maze1 ?start ?start" by (rule reachable.here) (simp add: path0)
  then have inv0: "carve_inv ?mc ?mr ?start ?st0"
    using shape_m1 shape_v1 start(1) by (simp add: carve_inv_def vis0 path0)
  from carve_inv_loop[OF inv0 rng] obtain st
    where loop: "carve ?mc ?mr rng ?st0 = Inr st" and inv: "carve_inv ?mc ?mr ?start st"
      and empty: "c_stack st = []" by blast
  from inv have shape_m: "grid_shape ?mc ?mr (c_maze st)"
    and vis_path': "\<forall>p. is_visited (c_visited st) p \<longrightarrow> is_path (c_maze st) p"
    and path': "\<forall>p. is_path (c_maze st) p \<longrightarrow> interior ?mc ?mr p \<and> reachable (c_maze st) ?start p"
    and vstart: "is_visited (c_visited st) ?start"
    and closed': "\<forall>p. is_visited (c_visited st) p \<and> p \<notin> set (c_stack st) \<longrightarrow>
           (\<forall>n \<in> set (potentialNeighbors p). interior ?mc ?mr n \<longrightarrow> is_visited (c_visited st) n)"
    unfolding carve_inv_def by blast+
  have vis_path: "is_path (c_maze st) p" if "is_visited (c_visited st) p" for p
    using vis_path' that by blast
  have path: "interior ?mc ?mr p \<and> reachable (c_maze st) ?start p" if "is_path (c_maze st) p" for p
    using path' that by blast
  have closed: "is_visited (c_visited st) n"
    if "is_visited (c_visited st) p" "n \<in> set (potentialNeighbors p)" "interior ?mc ?mr n" for p n
  proof -
    from that(1) empty have "is_visited (c_visited st) p \<and> p \<notin> set (c_stack st)" by simp
    with closed' that(2,3) show ?thesis by blast
  qed
  have corner1: "interior ?mc ?mr (1, 1)" using mc mr by (simp add: interior_def)
  have corner2: "interior ?mc ?mr (?mc - 2, ?mr - 2)" using mc mr by (simp add: interior_def)
  have "is_visited (c_visited st) (1, 1)"
    using closed vstart start corner1 by (rule lattice_visited) simp_all
  then have p1: "is_path (c_maze st) (1, 1)" by (rule vis_path)
  have "is_visited (c_visited st) (?mc - 2, ?mr - 2)"
    using closed vstart start corner2 by (rule lattice_visited) (use mc mr in simp_all)
  then have p2: "is_path (c_maze st) (?mc - 2, ?mr - 2)" by (rule vis_path)
  from grid_write_read[OF shape_m interior_valid[OF corner1], of Path]
  obtain maze3 where w3: "grid_write (c_maze st) 1 1 Path = Inr maze3"
    and shape3: "grid_shape ?mc ?mr maze3"
    and read3: "\<And>x y. grid_read maze3 x y =
        (if x = 1 \<and> y = 1 then Inr Path else grid_read (c_maze st) x y)"
    by auto
  have same3: "grid_read maze3 x y = grid_read (c_maze st) x y" for x y
    using p1 by (simp add: read3 is_path_def)
  from grid_write_read[OF shape3 interior_valid[OF corner2], of Path]
  obtain maze4 where w4: "grid_write maze3 (?mc - 2) (?mr - 2) Path = Inr maze4"
    and shape4: "grid_shape ?mc ?mr maze4"
    and read4: "\<And>x y. grid_read maze4 x y =
        (if x = ?mc - 2 \<and> y = ?mr - 2 then Inr Path else grid_read maze3 x y)"
    by auto
  have same4: "grid_read maze4 x y = grid_read (c_maze st) x y" for x y
    using p2 by (simp add: read4 same3 is_path_def)
  let ?r = "\<lparr>grid = maze4, finalCols = ?mc, finalRows = ?mr\<rparr>"
  have result: "generateMaze rng cols rows = Inr ?r"
    using mc mr by (simp add: generateMaze_def Let_def wv wm loop w3 w4)
  have path4: "is_path maze4 p \<longleftrightarrow> is_path (c_maze st) p" for p
    by (simp add: is_path_def same4)
  have "interior ?mc ?mr p \<and> reachable maze4 ?start p" if "is_path maze4 p" for p
  proof -
    from that have "is_path (c_maze st) p" by (simp add: path4)
    from path[OF this] have "interior ?mc ?mr p" and "reachable (c_maze st) ?start p" by simp_all
    moreover from this(2) have "reachable maze4 ?start p"
      by (rule reachable_mono) (simp add: path4)
    ultimately show ?thesis by simp
  qed
  moreover have "is_path maze4 (1, 1)" "is_path maze4 (?mc - 2, ?mr - 2)"
    using p1 p2 by (simp_all add: path4)
  ultimately show ?thesis using result shape4 by simp
qed


text \<open>
  Claim C2. For all requested dimensions and all random values in \<open>[0, 1)\<close>,
  \<open>generateMaze\<close> returns a maze, and every path cell of it can be reached from the
  start cell of the carving over orthogonally adjacent path cells. The two cells opened
  after the carving are path cells already, so they are reached as well.
\<close>

theorem generated_maze_connected:
  assumes "unit_draws rng"
  shows "\<exists>r. generateMaze rng cols rows = Inr r
       \<and> (\<forall>p. is_path (grid r) p \<longrightarrow>
             reachable (grid r) (start_cell rng (finalCols r) (finalRows r)) p)"
  using generateMaze_result[OF assms, of cols rows] by blast

lemma unit_draws_zero: "unit_draws (\<lambda>_. 0)"
  by (simp add: unit_draws_def)

theorem generated_maze_connected_witness:
  "unit_draws (\<lambda>_. 0)
   \<and> (\<exists>r. generateMaze (\<lambda>_. 0) 7 3 = Inr r \<and> is_path (grid r) (5, 1)
         \<and> reachable (grid r) (start_cell (\<lambda>_. 0) (finalCols r) (finalRows r)) (5, 1))"
proof -
  from generateMaze_result[OF unit_draws_zero, of 7 3] obtain r
    where r: "generateMaze (\<lambda>_. 0) 7 3 = Inr r" and dims: "finalCols r = 7" "finalRows r = 3"
      and corner: "is_path (grid r) (finalCols r - 2, finalRows r - 2)"
    by (auto simp: maze_dimension_def)
  from corner dims have path: "is_path (grid r) (5, 1)" by simp
  from generated_maze_connected[OF unit_draws_zero, of 7 3] r
  have "\<forall>p. is_path (grid r) p \<longrightarrow>
             reachable (grid r) (start_cell (\<lambda>_. 0) (finalCols r) (finalRows r)) p"
    by simp
  with path have "reachable (grid r) (start_cell (\<lambda>_. 0) (finalCols r) (finalRows r)) (5, 1)"
    by blast
  with r path unit_draws_zero show ?thesis by blast
qed

text \<open>
  Claim C9. For all requested dimensions and all random values in \<open>[0, 1)\<close>,
  \<open>generateMaze\<close> returns a maze of at least three columns and rows in which every path
  cell lies strictly inside the border, so that every cell of the border is a wall.
\<close>

theorem generated_maze_border_is_wall:
  assumes "unit_draws rng"
  shows "\<exists>r. generateMaze rng cols rows = Inr r
       \<and> 3 \<le> finalCols r \<and> 3 \<le> finalRows r
       \<and> grid_shape (finalCols r) (finalRows r) (grid r)
       \<and> (\<forall>p. is_path (grid r) p \<longrightarrow> interior (finalCols r) (finalRows r) p)
       \<and> (\<forall>x y. isValidGridPos (finalCols r) (finalRows r) x y
                 \<and> (x = 0 \<or> x = finalCols r - 1 \<or> y = 0 \<or> y = finalRows r - 1)
               \<longrightarrow> grid_read (grid r) x y = Inr Wall)"
proof -
  from generateMaze_result[OF assms, of cols rows] obtain r
    where r: "generateMaze rng cols rows = Inr r"
      and dims: "finalCols r = maze_dimension cols" "finalRows r = maze_dimension rows"
      and shape: "grid_shape (finalCols r) (finalRows r) (grid r)"
      and inner: "\<forall>p. is_path (grid r) p \<longrightarrow> interior (finalCols r) (finalRows r) p"
    by blast
  have "grid_read (grid r) x y = Inr Wall"
    if valid: "isValidGridPos (finalCols r) (finalRows r) x y"
      and border: "x = 0 \<or> x = finalCols r - 1 \<or> y = 0 \<or> y = finalRows r - 1" for x y
  proof -
    from border have "\<not> interior (finalCols r) (finalRows r) (x, y)"
      by (auto simp: interior_def)
    with inner have "\<not> is_path (grid r) (x, y)" by blast
    moreover have "grid_read (grid r) x y = Inr (cell_at (grid r) x y)"
      using shape valid by (rule grid_read_valid)
    ultimately show ?thesis
      by (cases "cell_at (grid r) x y") (simp_all add: is_path_def)
  qed
  with r dims shape inner maze_dimension_odd[of cols] maze_dimension_odd[of rows]
  show ?thesis by auto
qed

theorem generated_maze_border_is_wall_witness:
  "unit_draws (\<lambda>_. 0)
   \<and> (\<exists>r. generateMaze (\<lambda>_. 0) 7 3 = Inr r \<and> finalCols r = 7 \<and> finalRows r = 3
         \<and> isValidGridPos (finalCols r) (finalRows r) 6 1
         \<and> grid_read (grid r) 6 1 = Inr Wall)"
proof -
  from generateMaze_result[OF unit_draws_zero, of 7 3] obtain r0
    where r0: "generateMaze (\<lambda>_. 0) 7 3 = Inr r0" and dims: "finalCols r0 = 7" "finalRows r0 = 3"
    by (auto simp: maze_dimension_def)
  from generated_maze_border_is_wall[OF unit_draws_zero, of 7 3] r0
  have wall: "\<forall>x y. isValidGridPos (finalCols r0) (finalRows r0) x y
                 \<and> (x = 0 \<or> x = finalCols r0 - 1 \<or> y = 0 \<or> y = finalRows r0 - 1)
               \<longrightarrow> grid_read (grid r0) x y = Inr Wall"
    by simp
  have valid: "isValidGridPos (finalCols r0) (finalRows r0) 6 1"
    by (simp add: dims isValidGridPos_def)
  with wall dims have "grid_read (grid r0) 6 1 = Inr Wall" by simp
  with r0 dims valid unit_draws_zero show ?thesis by blast
qed

text \<open>
  The maze of the example is the maze that \<open>generateMaze\<close> builds for seven columns and
  three rows.
\<close>

lemma example_maze_generated:
  "generateMaze (\<lambda>_. 0) 7 3 =
     Inr \<lparr>grid = [[Wall, Wall, Wall], [Wall, Path, Wall], [Wall, Path, Wall], [Wall, Path, Wall],
                 [Wall, Path, Wall], [Wall, Path, Wall], [Wall, Wall, Wall]],
          finalCols = 7, finalRows = 3\<rparr>"
  by code_simp

end
